theory Spec2Isabelle
  imports Complex_Main "HOL-Library.Signed_Division"
begin

section \<open>Conventions of the embedding\<close>

text \<open>
  The development embeds the delay-and-censor engine of
  \<^verbatim>\<open>hardware/src/AudioProcessor.cpp\<close> and the aligner of
  \<^verbatim>\<open>desktop/Source/LyricsAlignment.cpp\<close>.

  \<^item> A C++ \<^verbatim>\<open>int\<close>, \<^verbatim>\<open>size_t\<close> or \<^verbatim>\<open>unsigned\<close> is an \<^typ>\<open>int\<close>; overflow is not
    modelled (no quantity of the engine comes near the 32-bit range for an audio sample rate).
  \<^item> A C++ \<^verbatim>\<open>float\<close> or \<^verbatim>\<open>double\<close> is a \<^typ>\<open>real\<close>: rounding, infinities and NaN are
    not modelled. Copies, comparisons and zero fills are exact in both worlds.
  \<^item> \<^verbatim>\<open>(int) x\<close> on a floating value truncates towards zero: \<open>c_int\<close>.
  \<^item> \<^verbatim>\<open>a % b\<close> on integers is the truncating remainder \<open>smod\<close>.
  \<^item> A \<^verbatim>\<open>std::vector\<close> is a list. Indexing outside the vector is undefined behaviour in
    C++; the theorems carry the hypotheses under which every index is inside.
  \<^item> A counted \<^verbatim>\<open>for\<close> loop is \<open>for_loop\<close>, which passes the loop index and the
    current state to the loop body.
\<close>

definition c_int :: "real \<Rightarrow> int" where
  "c_int x = (if 0 \<le> x then \<lfloor>x\<rfloor> else \<lceil>x\<rceil>)"

function for_loop :: "int \<Rightarrow> int \<Rightarrow> (int \<Rightarrow> 'a \<Rightarrow> 'a) \<Rightarrow> 'a \<Rightarrow> 'a" where
  "for_loop i n body s = (if i < n then for_loop (i + 1) n body (body i s) else s)"
  by pat_completeness auto
termination
  by (relation "measure (\<lambda>(i, n, body, s). nat (n - i))") auto

declare for_loop.simps [simp del]

text \<open>\<^verbatim>\<open>v[a][b] = x\<close> and \<^verbatim>\<open>v[a][b]\<close> on a vector of vectors.\<close>

definition put2 :: "'a list list \<Rightarrow> int \<Rightarrow> int \<Rightarrow> 'a \<Rightarrow> 'a list list" where
  "put2 v a b x = v[nat a := (v ! nat a)[nat b := x]]"

definition at2 :: "'a list list \<Rightarrow> int \<Rightarrow> int \<Rightarrow> 'a" where
  "at2 v a b = v ! nat a ! nat b"

section \<open>Data model\<close>

datatype CensorMode = Reverse | Mute

record Config =
  sampleRate :: int
  channels :: int
  modelPath :: string
  profanityLexicon :: string
  censorMode :: CensorMode
  enableVocalFilter :: bool
  enableTimestampRefiner :: bool
  initialDelaySeconds :: real
  chunkSeconds :: real

text \<open>The default member initialisers of \<^verbatim>\<open>AudioProcessor::Config\<close>.\<close>

definition default_Config :: Config where
  "default_Config =
     \<lparr> sampleRate = 48000, channels = 2, modelPath = [], profanityLexicon = [],
       censorMode = Reverse, enableVocalFilter = True, enableTimestampRefiner = True,
       initialDelaySeconds = 10, chunkSeconds = 5 \<rparr>"

text \<open>\<^verbatim>\<open>struct WordSegment\<close>; the field \<^verbatim>\<open>end\<close> is \<open>endT\<close> here.\<close>

record WordSegment =
  word :: string
  start :: real
  endT :: real
  confidence :: real

text \<open>
  The members of \<^verbatim>\<open>class AudioProcessor\<close> that the audio callback and the censor use.
  \<open>wasPaused\<close> is the function-local \<^verbatim>\<open>static bool\<close> of \<^verbatim>\<open>process()\<close>;
  \<open>detectedWords\<close> and \<open>fullTranscript\<close> are the locals of
  \<^verbatim>\<open>processTranscription()\<close> that its word loop appends to. The level meter
  (\<^verbatim>\<open>currentInputLevel\<close>), the recogniser context and the thread handles are left out:
  nothing below reads them.
\<close>

record AudioProcessor =
  config :: Config
  delayBuffer :: "real list list"
  delayBufferSize :: int
  delayWritePos :: int
  delayReadPos :: int
  playbackStarted :: bool
  wasPaused :: bool
  audioBuffer :: "real list"
  processingBuffer :: "real list"
  bufferWritePos :: int
  transcriptionInterval :: int
  bufferCaptureTime :: real
  hasNewBuffer :: bool
  profanityCount :: int
  bufferUnderrun :: bool
  streamTime :: real
  wasWaiting :: bool
  debugCounter :: int
  detectedWords :: "string list"
  fullTranscript :: string

section \<open>Text normalisation (\<^verbatim>\<open>LyricsAlignment::normalizeText\<close>)\<close>

text \<open>The character classes of the C locale, on bytes.\<close>

definition c_isupper :: "char \<Rightarrow> bool" where
  "c_isupper c = (65 \<le> (of_char c :: nat) \<and> (of_char c :: nat) \<le> 90)"

definition c_islower :: "char \<Rightarrow> bool" where
  "c_islower c = (97 \<le> (of_char c :: nat) \<and> (of_char c :: nat) \<le> 122)"

definition c_isdigit :: "char \<Rightarrow> bool" where
  "c_isdigit c = (48 \<le> (of_char c :: nat) \<and> (of_char c :: nat) \<le> 57)"

definition c_isalnum :: "char \<Rightarrow> bool" where
  "c_isalnum c = (c_isupper c \<or> c_islower c \<or> c_isdigit c)"

definition c_isspace :: "char \<Rightarrow> bool" where
  "c_isspace c = ((of_char c :: nat) = 32 \<or> (9 \<le> (of_char c :: nat) \<and> (of_char c :: nat) \<le> 13))"

definition c_tolower :: "char \<Rightarrow> char" where
  "c_tolower c = (if c_isupper c then char_of ((of_char c :: nat) + 32) else c)"

text \<open>\<^verbatim>\<open>while (iss >> word) words.push_back(word)\<close>: the whitespace-separated tokens.\<close>

fun stream_words :: "string \<Rightarrow> string \<Rightarrow> string list" where
  "stream_words cur [] = (if cur = [] then [] else [cur])"
| "stream_words cur (c # cs) =
     (if c_isspace c then (if cur = [] then stream_words [] cs else cur # stream_words [] cs)
      else stream_words (cur @ [c]) cs)"

fun join_words :: "string list \<Rightarrow> string" where
  "join_words [] = []"
| "join_words [w] = w"
| "join_words (w # ws) = w @ '' '' @ join_words ws"

definition normalizeText :: "string \<Rightarrow> string" where
  "normalizeText text =
     (let result = map c_tolower text;
          result = filter (\<lambda>c. \<not> (\<not> c_isalnum c \<and> \<not> c_isspace c)) result;
          words = stream_words [] result
      in join_words words)"

definition splitIntoWords :: "string \<Rightarrow> string list" where
  "splitIntoWords text = stream_words [] (normalizeText text)"

section \<open>The censor (\<^verbatim>\<open>AudioProcessor::processTranscription\<close>)\<close>

subsection \<open>Word timings from segment timings\<close>

text \<open>
  Lines 456 to 472: the cleaned words of one recogniser segment, whose bounds \<open>t0\<close> and
  \<open>t1\<close> come in centiseconds, are spread over the segment and appended to
  \<^verbatim>\<open>transcribedWords\<close>.
\<close>

definition distributeWords :: "int \<Rightarrow> int \<Rightarrow> string list \<Rightarrow> WordSegment list \<Rightarrow> WordSegment list" where
  "distributeWords segmentStart segmentEnd segmentWords transcribedWords =
     (let segStartSec = real_of_int segmentStart * 0.01;
          segEndSec = real_of_int segmentEnd * 0.01
      in if segmentWords \<noteq> [] then
           let segmentDuration = segEndSec - segStartSec;
               wordDuration = segmentDuration / real (length segmentWords)
           in for_loop 0 (int (length segmentWords))
                (\<lambda>k ws.
                   let wordStart = segStartSec + (real_of_int k * wordDuration);
                       wordEnd = wordStart + wordDuration;
                       wordStart = max 0.0 (min 5.0 wordStart);
                       wordEnd = max (wordStart + 0.05) (min 5.0 wordEnd)
                   in ws @ [\<lparr> word = segmentWords ! nat k, start = wordStart, endT = wordEnd,
                             confidence = 0.9 \<rparr>])
                transcribedWords
         else transcribedWords)"

subsection \<open>Patching the delay line\<close>

text \<open>Lines 531 to 542 (and 605 to 615): the Mute patch.\<close>

definition mute_patch :: "int \<Rightarrow> int \<Rightarrow> int \<Rightarrow> int \<Rightarrow> int \<Rightarrow> real list list \<Rightarrow> real list list" where
  "mute_patch nch bufSize chunkStartPos startSample endSample buf =
     for_loop 0 nch
       (\<lambda>ch buf.
          for_loop startSample endSample
            (\<lambda>i buf.
               let delayPos = (chunkStartPos + i) smod bufSize
               in put2 buf ch delayPos 0)
            buf)
       buf"

text \<open>Lines 547 to 554: the span of one channel is copied out and reversed.\<close>

definition reversed_span :: "int \<Rightarrow> int \<Rightarrow> int \<Rightarrow> int \<Rightarrow> int \<Rightarrow> real list list \<Rightarrow> real list" where
  "reversed_span bufSize chunkStartPos startSample numSamplesToCensor ch buf =
     (let tempBuffer = replicate (nat numSamplesToCensor) 0;
          tempBuffer = for_loop 0 numSamplesToCensor
            (\<lambda>i tempBuffer.
               let delayPos = (chunkStartPos + startSample + i) smod bufSize
               in tempBuffer[nat i := at2 buf ch delayPos])
            tempBuffer
      in rev tempBuffer)"

text \<open>Lines 543 to 573: the Reverse patch of a single-word hit.\<close>

definition reverse_patch :: "int \<Rightarrow> int \<Rightarrow> int \<Rightarrow> int \<Rightarrow> int \<Rightarrow> int \<Rightarrow> real list list \<Rightarrow> real list list" where
  "reverse_patch nch bufSize chunkStartPos startSample numSamplesToCensor fadeSamples buf =
     for_loop 0 nch
       (\<lambda>ch buf.
          let tempBuffer = reversed_span bufSize chunkStartPos startSample numSamplesToCensor ch buf
          in for_loop 0 numSamplesToCensor
               (\<lambda>i buf.
                  let sample = tempBuffer ! nat i;
                      volumeReduction = 0.5;
                      sample =
                        (if i < fadeSamples then
                           sample * ((real_of_int i / real_of_int fadeSamples) * volumeReduction)
                         else if i \<ge> numSamplesToCensor - fadeSamples then
                           sample * ((real_of_int (numSamplesToCensor - i) / real_of_int fadeSamples)
                                     * volumeReduction)
                         else sample * volumeReduction);
                      delayPos = (chunkStartPos + startSample + i) smod bufSize
                  in put2 buf ch delayPos sample)
               buf)
       buf"

text \<open>Lines 616 to 641: the Reverse patch of a two-word hit.\<close>

definition reverse_patch2 :: "int \<Rightarrow> int \<Rightarrow> int \<Rightarrow> int \<Rightarrow> int \<Rightarrow> int \<Rightarrow> real list list \<Rightarrow> real list list" where
  "reverse_patch2 nch bufSize chunkStartPos startSample numSamplesToCensor fadeSamples buf =
     for_loop 0 nch
       (\<lambda>ch buf.
          let tempBuffer = reversed_span bufSize chunkStartPos startSample numSamplesToCensor ch buf
          in for_loop 0 numSamplesToCensor
               (\<lambda>i buf.
                  let sample = tempBuffer ! nat i * 0.5;
                      sample =
                        (if i < fadeSamples then
                           sample * (real_of_int i / real_of_int fadeSamples)
                         else if i \<ge> numSamplesToCensor - fadeSamples then
                           sample * (real_of_int (numSamplesToCensor - i) / real_of_int fadeSamples)
                         else sample);
                      delayPos = (chunkStartPos + startSample + i) smod bufSize
                  in put2 buf ch delayPos sample)
               buf)
       buf"

text \<open>
  Lines 513 to 521 (and 590 to 597): the padded span of a hit as frame offsets in the chunk.
\<close>

definition hit_startSample :: "Config \<Rightarrow> real \<Rightarrow> int" where
  "hit_startSample cfg hitStart =
     (let paddingBefore = 0.4;
          startSample = c_int ((hitStart - paddingBefore) * real_of_int (sampleRate cfg))
      in max 0 (min startSample (sampleRate cfg * 5)))"

definition hit_endSample :: "Config \<Rightarrow> real \<Rightarrow> real \<Rightarrow> int" where
  "hit_endSample cfg hitStart hitEnd =
     (let paddingAfter = 0.1;
          startSample = hit_startSample cfg hitStart;
          endSample = c_int ((hitEnd + paddingAfter) * real_of_int (sampleRate cfg))
      in max startSample (min endSample (sampleRate cfg * 5)))"

text \<open>Lines 510 to 573: what a single-word hit does to the processor.\<close>

definition censor_word :: "int \<Rightarrow> WordSegment \<Rightarrow> AudioProcessor \<Rightarrow> AudioProcessor" where
  "censor_word chunkStartPos wordSeg st =
     (let cfg = config st;
          startSample = hit_startSample cfg (start wordSeg);
          endSample = hit_endSample cfg (start wordSeg) (endT wordSeg);
          numSamplesToCensor = endSample - startSample;
          fadeSamples = min 480 (numSamplesToCensor sdiv 4)
      in st\<lparr> detectedWords := detectedWords st @ [word wordSeg],
              profanityCount := profanityCount st + 1,
              delayBuffer :=
                (case censorMode cfg of
                   Mute \<Rightarrow> mute_patch (channels cfg) (delayBufferSize st) chunkStartPos
                             startSample endSample (delayBuffer st)
                 | Reverse \<Rightarrow> reverse_patch (channels cfg) (delayBufferSize st) chunkStartPos
                             startSample numSamplesToCensor fadeSamples (delayBuffer st)) \<rparr>)"

text \<open>Lines 587 to 641: what a two-word hit does to the processor.\<close>

definition censor_pair :: "int \<Rightarrow> WordSegment \<Rightarrow> WordSegment \<Rightarrow> AudioProcessor \<Rightarrow> AudioProcessor" where
  "censor_pair chunkStartPos wordSeg nextWord st =
     (let cfg = config st;
          startSample = hit_startSample cfg (start wordSeg);
          endSample = hit_endSample cfg (start wordSeg) (endT nextWord);
          numSamplesToCensor = endSample - startSample;
          fadeSamples = min 480 (numSamplesToCensor sdiv 4)
      in st\<lparr> detectedWords := detectedWords st @ [word wordSeg @ '' '' @ word nextWord],
              profanityCount := profanityCount st + 1,
              delayBuffer :=
                (case censorMode cfg of
                   Mute \<Rightarrow> mute_patch (channels cfg) (delayBufferSize st) chunkStartPos
                             startSample endSample (delayBuffer st)
                 | Reverse \<Rightarrow> reverse_patch2 (channels cfg) (delayBufferSize st) chunkStartPos
                             startSample numSamplesToCensor fadeSamples (delayBuffer st)) \<rparr>)"

subsection \<open>The word loop\<close>

text \<open>
  Lines 493 to 646. \<open>containsProfanity\<close> stands for
  \<^verbatim>\<open>profanityFilter.containsProfanity\<close>, whose class is outside the sources at hand: a
  set-membership test on the normalised text. A \<^verbatim>\<open>continue\<close> goes to the next index;
  the \<^verbatim>\<open>idx++\<close> of a two-word hit makes it the index after next.
\<close>

function word_loop ::
  "(string \<Rightarrow> bool) \<Rightarrow> int \<Rightarrow> WordSegment list \<Rightarrow> nat \<Rightarrow> AudioProcessor \<Rightarrow> AudioProcessor" where
  "word_loop containsProfanity chunkStartPos transcribedWords idx st =
     (if idx < length transcribedWords then
        let wordSeg = transcribedWords ! idx;
            st = st\<lparr> fullTranscript := fullTranscript st @ word wordSeg @ '' '' \<rparr>;
            normalizedWord = normalizeText (word wordSeg)
        in if containsProfanity normalizedWord \<and> bufferUnderrun st then
             word_loop containsProfanity chunkStartPos transcribedWords (idx + 1) st
           else
             let st = (if containsProfanity normalizedWord
                       then censor_word chunkStartPos wordSeg st else st)
             in if idx + 1 < length transcribedWords then
                  let nextWord = transcribedWords ! (idx + 1);
                      combined = normalizeText (word wordSeg @ word nextWord)
                  in if containsProfanity combined then
                       if bufferUnderrun st then
                         word_loop containsProfanity chunkStartPos transcribedWords (idx + 1) st
                       else
                         word_loop containsProfanity chunkStartPos transcribedWords (idx + 2)
                           (censor_pair chunkStartPos wordSeg nextWord st)
                     else word_loop containsProfanity chunkStartPos transcribedWords (idx + 1) st
                else word_loop containsProfanity chunkStartPos transcribedWords (idx + 1) st
      else st)"
  by pat_completeness auto
termination
  by (relation "measure (\<lambda>(c, p, ws, idx, st). length ws - idx)") auto

declare word_loop.simps [simp del]

text \<open>
  Lines 485 to 646, from the word list that recognition, timing synthesis and the optional
  refinement produced.
\<close>

definition chunkStartPos_of :: "AudioProcessor \<Rightarrow> real \<Rightarrow> int" where
  "chunkStartPos_of st captureTime =
     (let chunkEndPos = c_int captureTime
      in (chunkEndPos - (sampleRate (config st) * 5) + delayBufferSize st) smod delayBufferSize st)"

definition processTranscription ::
  "(string \<Rightarrow> bool) \<Rightarrow> WordSegment list \<Rightarrow> real \<Rightarrow> AudioProcessor \<Rightarrow> AudioProcessor" where
  "processTranscription containsProfanity transcribedWords captureTime st =
     word_loop containsProfanity (chunkStartPos_of st captureTime) transcribedWords 0
       (st\<lparr> detectedWords := [], fullTranscript := [] \<rparr>)"

section \<open>The audio callback (\<^verbatim>\<open>AudioProcessor::process\<close>)\<close>

text \<open>
  \<open>inputBuffer\<close> and \<open>outputBuffer\<close> are the interleaved sample arrays of the driver:
  frame \<open>i\<close>, channel \<open>ch\<close> is at index \<open>i * channels + ch\<close>.
\<close>

text \<open>Lines 190 to 193: the mono downmix of input frame \<open>i\<close>.\<close>

definition monoDownmix :: "Config \<Rightarrow> real list \<Rightarrow> int \<Rightarrow> real" where
  "monoDownmix cfg inputBuffer i =
     (let monoSample = for_loop 0 (channels cfg)
            (\<lambda>ch monoSample. monoSample + inputBuffer ! nat (i * channels cfg + ch)) 0
      in monoSample / real_of_int (channels cfg))"

text \<open>Lines 187 to 200: the capture buffer takes the downmix while it has room.\<close>

definition accumulate :: "real list \<Rightarrow> int \<Rightarrow> AudioProcessor \<Rightarrow> AudioProcessor" where
  "accumulate inputBuffer frames st =
     for_loop 0 frames
       (\<lambda>i st.
          let monoSample = monoDownmix (config st) inputBuffer i
          in if bufferWritePos st < int (length (audioBuffer st)) then
               st\<lparr> audioBuffer := (audioBuffer st)[nat (bufferWritePos st) := monoSample],
                   bufferWritePos := bufferWritePos st + 1 \<rparr>
             else st)
       st"

text \<open>
  Lines 203 to 247: the handoff of a full chunk to the recogniser thread, or the wait for it.
  \<^verbatim>\<open>std::copy\<close> overwrites the front of \<^verbatim>\<open>processingBuffer\<close>.
\<close>

definition chunk_handoff :: "int \<Rightarrow> AudioProcessor \<Rightarrow> AudioProcessor" where
  "chunk_handoff frames st =
     (let cfg = config st;
          st = st\<lparr> transcriptionInterval := transcriptionInterval st + frames \<rparr>
      in if real_of_int (transcriptionInterval st) \<ge> real_of_int (sampleRate cfg) * chunkSeconds cfg
            \<and> \<not> hasNewBuffer st then
           let samplesToProcess =
                 min (bufferWritePos st) (c_int (real_of_int (sampleRate cfg) * chunkSeconds cfg));
               st = st\<lparr> processingBuffer :=
                          take (nat samplesToProcess) (audioBuffer st)
                          @ drop (nat samplesToProcess) (processingBuffer st),
                        bufferCaptureTime := real_of_int (delayWritePos st),
                        wasWaiting := False,
                        hasNewBuffer := True \<rparr>
           in st\<lparr> bufferWritePos := 0, transcriptionInterval := 0 \<rparr>
         else if real_of_int (transcriptionInterval st) \<ge> real_of_int (sampleRate cfg) * chunkSeconds cfg
            \<and> hasNewBuffer st then
           let st = st\<lparr> debugCounter := debugCounter st + 1 \<rparr>
           in if debugCounter st smod 100 = 0 then st\<lparr> wasWaiting := True \<rparr> else st
         else st)"

text \<open>
  Lines 266 to 299: the playback gate of one frame. It returns \<^verbatim>\<open>canPlay\<close> and updates
  \<^verbatim>\<open>playbackStarted\<close> and \<^verbatim>\<open>wasPaused\<close>.
\<close>

definition playback_gate :: "real \<Rightarrow> AudioProcessor \<Rightarrow> bool \<times> AudioProcessor" where
  "playback_gate bufferSeconds st =
     (if \<not> playbackStarted st then
        let canPlay = (bufferSeconds \<ge> initialDelaySeconds (config st))
        in (canPlay, if canPlay then st\<lparr> playbackStarted := True \<rparr> else st)
      else
        let pauseThreshold = initialDelaySeconds (config st) - 2.0;
            resumeThreshold = initialDelaySeconds (config st);
            st = (if bufferSeconds < pauseThreshold \<and> \<not> wasPaused st then st\<lparr> wasPaused := True \<rparr>
                  else if bufferSeconds \<ge> resumeThreshold \<and> wasPaused st then st\<lparr> wasPaused := False \<rparr>
                  else st)
        in (\<not> wasPaused st, st))"

text \<open>Line 263: the fill of the delay line as the callback computes it.\<close>

definition currentGap :: "AudioProcessor \<Rightarrow> int" where
  "currentGap st = (delayWritePos st - delayReadPos st + delayBufferSize st) smod delayBufferSize st"

text \<open>
  Lines 253 to 314: one frame of the delay loop. The locals \<^verbatim>\<open>writePos\<close> and
  \<^verbatim>\<open>readPos\<close> live in \<open>delayWritePos\<close> and \<open>delayReadPos\<close>, where the callback
  stores them when the loop ends.
\<close>

definition delay_frame :: "real list \<Rightarrow> int \<Rightarrow> AudioProcessor \<times> real list \<Rightarrow> AudioProcessor \<times> real list" where
  "delay_frame inputBuffer i = (\<lambda>(st, outputBuffer).
     let cfg = config st;
         writePos = delayWritePos st;
         readPos = delayReadPos st;
         st = st\<lparr> delayBuffer :=
                    for_loop 0 (channels cfg)
                      (\<lambda>ch buf.
                         let sample = inputBuffer ! nat (i * channels cfg + ch)
                         in put2 buf ch writePos sample)
                      (delayBuffer st) \<rparr>;
         bufferSeconds = real_of_int (currentGap st) / real_of_int (sampleRate cfg);
         (canPlay, st) = playback_gate bufferSeconds st;
         outputBuffer =
           for_loop 0 (channels cfg)
             (\<lambda>ch outputBuffer.
                outputBuffer[nat (i * channels cfg + ch) :=
                  (if canPlay then at2 (delayBuffer st) ch readPos else 0)])
             outputBuffer;
         writePos = (writePos + 1) smod delayBufferSize st;
         readPos = (if canPlay then (readPos + 1) smod delayBufferSize st else readPos)
     in (st\<lparr> delayWritePos := writePos, delayReadPos := readPos \<rparr>, outputBuffer))"

text \<open>Lines 175 to 320, without the level meter.\<close>

definition process :: "real list \<Rightarrow> real list \<Rightarrow> int \<Rightarrow> AudioProcessor \<Rightarrow> AudioProcessor \<times> real list" where
  "process inputBuffer outputBuffer frames st =
     (let st = accumulate inputBuffer frames st;
          st = chunk_handoff frames st;
          (st, outputBuffer) = for_loop 0 frames (delay_frame inputBuffer) (st, outputBuffer)
      in (st\<lparr> streamTime := streamTime st + real_of_int frames / real_of_int (sampleRate (config st)) \<rparr>,
          outputBuffer))"

subsection \<open>Construction, \<^verbatim>\<open>initialize\<close> and \<^verbatim>\<open>start\<close>\<close>

text \<open>\<^verbatim>\<open>v.resize(n, x)\<close>.\<close>

definition resize :: "'a list \<Rightarrow> int \<Rightarrow> 'a \<Rightarrow> 'a list" where
  "resize v n x = take (nat n) v @ replicate (nat n - length v) x"

text \<open>The processor as its constructor and default member initialisers leave it.\<close>

definition constructed :: AudioProcessor where
  "constructed =
     \<lparr> config = default_Config, delayBuffer = [], delayBufferSize = 0, delayWritePos = 0,
       delayReadPos = 0, playbackStarted = False, wasPaused = False, audioBuffer = [],
       processingBuffer = [], bufferWritePos = 0, transcriptionInterval = 0,
       bufferCaptureTime = 0, hasNewBuffer = False, profanityCount = 0, bufferUnderrun = False,
       streamTime = 0, wasWaiting = False, debugCounter = 0, detectedWords = [],
       fullTranscript = [] \<rparr>"

text \<open>
  Lines 63 to 115, on the path where the lexicon and the model load: the buffers are sized.
\<close>

definition initialize :: "Config \<Rightarrow> AudioProcessor \<Rightarrow> AudioProcessor" where
  "initialize cfg st =
     (let st = st\<lparr> config := cfg \<rparr>;
          audioBufferSize = c_int (real_of_int (sampleRate cfg) * chunkSeconds cfg);
          st = st\<lparr> audioBuffer := resize (audioBuffer st) audioBufferSize 0,
                   processingBuffer := resize (processingBuffer st) audioBufferSize 0 \<rparr>;
          st = st\<lparr> delayBufferSize :=
                     c_int (real_of_int (sampleRate cfg) * (initialDelaySeconds cfg + 10.0)) \<rparr>
      in st\<lparr> delayBuffer :=
                map (\<lambda>channel. resize channel (delayBufferSize st) 0)
                  (resize (delayBuffer st) (channels cfg) []) \<rparr>)"

text \<open>
  Lines 117 to 149: the reset of \<^verbatim>\<open>AudioProcessor::start\<close> (the name \<open>start\<close> is the
  field of a word segment here). It does not touch \<open>wasPaused\<close>.
\<close>

definition startProcessor :: "AudioProcessor \<Rightarrow> AudioProcessor" where
  "startProcessor st =
     st\<lparr> bufferWritePos := 0, transcriptionInterval := 0, streamTime := 0,
         playbackStarted := False, wasWaiting := False, debugCounter := 0,
         profanityCount := 0, bufferUnderrun := False,
         delayWritePos := 0, delayReadPos := 0,
         delayBuffer := map (\<lambda>channel. replicate (length channel) 0) (delayBuffer st),
         hasNewBuffer := False \<rparr>"

text \<open>
  Lines 339 to 349: the recogniser thread takes the snapshot and its capture position and
  clears \<^verbatim>\<open>hasNewBuffer\<close>.
\<close>

definition take_chunk :: "AudioProcessor \<Rightarrow> (real list \<times> real) \<times> AudioProcessor" where
  "take_chunk st = ((processingBuffer st, bufferCaptureTime st), st\<lparr> hasNewBuffer := False \<rparr>)"

text \<open>A run of the audio thread: one \<^verbatim>\<open>process()\<close> call per input period.\<close>

fun run_process :: "(real list \<times> real list \<times> int) list \<Rightarrow> AudioProcessor \<Rightarrow> AudioProcessor" where
  "run_process [] st = st"
| "run_process ((inputBuffer, outputBuffer, frames) # calls) st =
     run_process calls (fst (process inputBuffer outputBuffer frames st))"

text \<open>The three states of the playback gate, read off the two flags.\<close>

datatype Gate = Warming | Playing | Paused

definition gate :: "AudioProcessor \<Rightarrow> Gate" where
  "gate st = (if \<not> playbackStarted st then Warming else if wasPaused st then Paused else Playing)"

section \<open>Lyrics alignment (\<^verbatim>\<open>LyricsAlignment.cpp\<close>)\<close>

text \<open>Lines 132 to 171.\<close>

definition calculateEditDistance :: "string list \<Rightarrow> string list \<Rightarrow> int list list" where
  "calculateEditDistance seq1 seq2 =
     (let m = int (length seq1);
          n = int (length seq2);
          matrix = replicate (nat (m + 1)) (replicate (nat (n + 1)) 0);
          matrix = for_loop 0 (m + 1) (\<lambda>i matrix. put2 matrix i 0 i) matrix;
          matrix = for_loop 0 (n + 1) (\<lambda>j matrix. put2 matrix 0 j j) matrix
      in for_loop 1 (m + 1)
           (\<lambda>i matrix.
              for_loop 1 (n + 1)
                (\<lambda>j matrix.
                   if seq1 ! nat (i - 1) = seq2 ! nat (j - 1) then
                     put2 matrix i j (at2 matrix (i - 1) (j - 1))
                   else
                     put2 matrix i j
                       (1 + min (at2 matrix (i - 1) j)
                              (min (at2 matrix i (j - 1)) (at2 matrix (i - 1) (j - 1)))))
                matrix)
           matrix)"

text \<open>
  Lines 188 to 213: the backtracking loop. When no branch of its body applies, the body
  changes nothing and the loop does not end; the model then has no result.
\<close>

partial_function (option) backtrack_loop ::
  "int list list \<Rightarrow> string list \<Rightarrow> string list \<Rightarrow> int \<Rightarrow> int \<Rightarrow> (int \<times> int) list
     \<Rightarrow> (int \<times> int) list option" where
  "backtrack_loop matrix transcribedWords lyricsWords i j alignments =
     (if i > 0 \<or> j > 0 then
        if i > 0 \<and> j > 0 \<and> transcribedWords ! nat (i - 1) = lyricsWords ! nat (j - 1) then
          backtrack_loop matrix transcribedWords lyricsWords (i - 1) (j - 1)
            (alignments @ [(i - 1, j - 1)])
        else if i > 0 \<and> j > 0 \<and> at2 matrix i j = at2 matrix (i - 1) (j - 1) + 1 then
          backtrack_loop matrix transcribedWords lyricsWords (i - 1) (j - 1)
            (alignments @ [(i - 1, j - 1)])
        else if j > 0 \<and> at2 matrix i j = at2 matrix i (j - 1) + 1 then
          backtrack_loop matrix transcribedWords lyricsWords i (j - 1)
            (alignments @ [(- 1, j - 1)])
        else if i > 0 then
          backtrack_loop matrix transcribedWords lyricsWords (i - 1) j alignments
        else
          backtrack_loop matrix transcribedWords lyricsWords i j alignments
      else Some alignments)"

declare backtrack_loop.simps [code]

text \<open>Lines 219 to 251: the body of the loop over the alignments.\<close>

definition emit_segment ::
  "string list \<Rightarrow> WordSegment list \<Rightarrow> WordSegment list \<Rightarrow> int \<times> int \<Rightarrow> WordSegment list" where
  "emit_segment lyricsWords originalSegments correctedSegments = (\<lambda>(trans_idx, lyrics_idx).
     if trans_idx \<ge> 0 \<and> lyrics_idx \<ge> 0 then
       let original = originalSegments ! nat trans_idx
       in correctedSegments @
            [\<lparr> word = lyricsWords ! nat lyrics_idx, start = start original, endT = endT original,
               confidence = confidence original * 0.95 \<rparr>]
     else if lyrics_idx \<ge> 0 then
       let estimatedStart = (if correctedSegments \<noteq> [] then endT (last correctedSegments) else 0.0);
           estimatedEnd = (if correctedSegments \<noteq> [] then estimatedStart + 0.3 else 0.3)
       in correctedSegments @
            [\<lparr> word = lyricsWords ! nat lyrics_idx, start = estimatedStart, endT = estimatedEnd,
               confidence = 0.5 \<rparr>]
     else correctedSegments)"

text \<open>Lines 174 to 254.\<close>

definition backtrackAlignment ::
  "int list list \<Rightarrow> string list \<Rightarrow> string list \<Rightarrow> WordSegment list \<Rightarrow> WordSegment list option" where
  "backtrackAlignment matrix transcribedWords lyricsWords originalSegments =
     (case backtrack_loop matrix transcribedWords lyricsWords
             (int (length transcribedWords)) (int (length lyricsWords)) [] of
        None \<Rightarrow> None
      | Some alignments \<Rightarrow>
          Some (foldl (emit_segment lyricsWords originalSegments) [] (rev alignments)))"

text \<open>Lines 257 to 305.\<close>

definition alignLyricsToTranscription :: "WordSegment list \<Rightarrow> string \<Rightarrow> WordSegment list option" where
  "alignLyricsToTranscription transcribedWords lyrics =
     (if lyrics = [] \<or> transcribedWords = [] then Some transcribedWords
      else
        let transcribedText = map (\<lambda>seg. normalizeText (word seg)) transcribedWords;
            lyricsWords = splitIntoWords lyrics
        in if lyricsWords = [] then Some transcribedWords
           else backtrackAlignment (calculateEditDistance transcribedText lyricsWords)
                  transcribedText lyricsWords transcribedWords)"

section \<open>Auxiliary notions for the proofs\<close>

text \<open>Two vectors of vectors with the same dimensions.\<close>

definition same_shape :: "'a list list \<Rightarrow> 'a list list \<Rightarrow> bool" where
  "same_shape v w = (length v = length w \<and> (\<forall>c < length w. length (v ! c) = length (w ! c)))"

text \<open>
  The linear fade of a Reverse patch in the words of the specification: \<open>i / fadeSamples\<close>
  over the first \<open>fadeSamples\<close> frames of a span of \<open>n\<close> frames,
  \<open>(n - i) / fadeSamples\<close> over the last \<open>fadeSamples\<close> frames, and no fade between.
\<close>

definition fade_ramp :: "int \<Rightarrow> int \<Rightarrow> int \<Rightarrow> real" where
  "fade_ramp n fadeSamples i =
     (if i < fadeSamples then real_of_int i / real_of_int fadeSamples
      else if n - fadeSamples \<le> i then real_of_int (n - i) / real_of_int fadeSamples
      else 1)"

text \<open>
  The delay line as \<^verbatim>\<open>initialize\<close> allocates it: one vector of \<open>delayBufferSize\<close> samples
  per channel, long enough for a chunk of \<open>sampleRate * 5\<close> frames.
\<close>

definition delay_wf :: "AudioProcessor \<Rightarrow> bool" where
  "delay_wf st =
     (0 < delayBufferSize st \<and> 0 \<le> sampleRate (config st)
      \<and> sampleRate (config st) * 5 \<le> delayBufferSize st
      \<and> 0 \<le> channels (config st)
      \<and> length (delayBuffer st) = nat (channels (config st))
      \<and> (\<forall>c < length (delayBuffer st). length (delayBuffer st ! c) = nat (delayBufferSize st)))"

text \<open>
  \<open>buf'\<close> has the dimensions of \<open>buf\<close> and differs from it at most at the ring positions
  \<open>(chunkStartPos + i) % bufSize\<close> with \<open>0 \<le> i < K\<close>.
\<close>

definition unchanged_outside :: "int \<Rightarrow> int \<Rightarrow> int \<Rightarrow> real list list \<Rightarrow> real list list \<Rightarrow> bool" where
  "unchanged_outside bufSize chunkStartPos K buf buf' =
     (same_shape buf' buf \<and>
      (\<forall>c p. c < length buf \<longrightarrow> p < length (buf ! c) \<longrightarrow>
         p \<notin> (\<lambda>i. nat ((chunkStartPos + i) smod bufSize)) ` {0..<K} \<longrightarrow>
         buf' ! c ! p = buf ! c ! p))"

text \<open>
  The hits of the word loop from index \<open>idx\<close> on while the underrun flag is clear, in the
  order in which the loop patches them: \<open>SingleHit i\<close> is the single-word hit on word
  \<open>i\<close>, \<open>PairHit i\<close> the two-word hit on words \<open>i\<close> and \<open>i + 1\<close>.
  \<open>scan_indices\<close> lists the indices at which the loop body runs.
\<close>

datatype hit = SingleHit nat | PairHit nat

definition pair_match :: "(string \<Rightarrow> bool) \<Rightarrow> WordSegment list \<Rightarrow> nat \<Rightarrow> bool" where
  "pair_match containsProfanity ws idx =
     (idx + 1 < length ws
      \<and> containsProfanity (normalizeText (word (ws ! idx) @ word (ws ! (idx + 1)))))"

function scan_hits :: "(string \<Rightarrow> bool) \<Rightarrow> WordSegment list \<Rightarrow> nat \<Rightarrow> hit list" where
  "scan_hits containsProfanity ws idx =
     (if idx < length ws then
        (if containsProfanity (normalizeText (word (ws ! idx))) then [SingleHit idx] else []) @
        (if pair_match containsProfanity ws idx
         then PairHit idx # scan_hits containsProfanity ws (idx + 2)
         else scan_hits containsProfanity ws (idx + 1))
      else [])"
  by pat_completeness auto
termination
  by (relation "measure (\<lambda>(c, ws, idx). length ws - idx)") auto

declare scan_hits.simps [simp del]

function scan_indices :: "(string \<Rightarrow> bool) \<Rightarrow> WordSegment list \<Rightarrow> nat \<Rightarrow> nat list" where
  "scan_indices containsProfanity ws idx =
     (if idx < length ws then
        idx # (if pair_match containsProfanity ws idx
               then scan_indices containsProfanity ws (idx + 2)
               else scan_indices containsProfanity ws (idx + 1))
      else [])"
  by pat_completeness auto
termination
  by (relation "measure (\<lambda>(c, ws, idx). length ws - idx)") auto

declare scan_indices.simps [simp del]

fun apply_hit :: "int \<Rightarrow> WordSegment list \<Rightarrow> AudioProcessor \<Rightarrow> hit \<Rightarrow> AudioProcessor" where
  "apply_hit chunkStartPos ws st (SingleHit i) = censor_word chunkStartPos (ws ! i) st"
| "apply_hit chunkStartPos ws st (PairHit i) = censor_pair chunkStartPos (ws ! i) (ws ! (i + 1)) st"

text \<open>The processor without the transcript text that the word loop collects for its log.\<close>

definition strip_transcript :: "AudioProcessor \<Rightarrow> AudioProcessor" where
  "strip_transcript st = st\<lparr> fullTranscript := [] \<rparr>"

text \<open>
  A small processor for the worked examples: one channel at 2 frames per second, so that a
  chunk has 10 frames, and a delay line of 12 frames holding 10, 20, ..., 120.
\<close>

definition example_processor :: AudioProcessor where
  "example_processor =
     constructed\<lparr> config := default_Config\<lparr> sampleRate := 2, channels := 1 \<rparr>,
                  delayBufferSize := 12,
                  delayBuffer := [[10, 20, 30, 40, 50, 60, 70, 80, 90, 100, 110, 120]] \<rparr>"




text \<open>The part of the processor that the playback gate reads and writes.\<close>

definition gate_view :: "AudioProcessor \<Rightarrow> Config \<times> int \<times> int \<times> int \<times> bool \<times> bool" where
  "gate_view st =
     (config st, delayBufferSize st, delayWritePos st, delayReadPos st, playbackStarted st,
      wasPaused st)"

text \<open>\<^verbatim>\<open>canPlay\<close> of the frame that starts in state \<open>st\<close>.\<close>

definition canPlay_of :: "AudioProcessor \<Rightarrow> bool" where
  "canPlay_of st =
     fst (playback_gate (real_of_int (currentGap st) / real_of_int (sampleRate (config st))) st)"


text \<open>Word \<open>k\<close> of a segment as the timing loop builds it.\<close>

definition word_timing :: "int \<Rightarrow> int \<Rightarrow> string list \<Rightarrow> nat \<Rightarrow> WordSegment" where
  "word_timing segmentStart segmentEnd segmentWords k =
     (let t0 = real_of_int segmentStart * 0.01;
          t1 = real_of_int segmentEnd * 0.01;
          wordDuration = (t1 - t0) / real (length segmentWords);
          s = max 0 (min 5 (t0 + real k * wordDuration))
      in \<lparr> word = segmentWords ! k, start = s,
           endT = max (s + 0.05) (min 5 (t0 + real k * wordDuration + wordDuration)),
           confidence = 0.9 \<rparr>)"

text \<open>
  The processor after \<^verbatim>\<open>initialize\<close> and \<^verbatim>\<open>start\<close> for one channel at 2 frames per
  second: chunks of 10 frames and a delay line of 40 frames.
\<close>

definition small_processor :: AudioProcessor where
  "small_processor =
     startProcessor (initialize (default_Config\<lparr> sampleRate := 2, channels := 1 \<rparr>) constructed)"

text \<open>
  That processor after a first callback of 19 frames: still Warming, with a fill of 19
  frames, one short of the initial delay of 20.
\<close>

definition warming_processor :: AudioProcessor where
  "warming_processor =
     fst (process [1, 2, 3, 4, 5, 6, 7, 8, 9, 10, 11, 12, 13, 14, 15, 16, 17, 18, 19]
            (replicate 19 0) 19 small_processor)"

text \<open>
  The delay-line samples of channel 0 at the positions that the censor takes for the chunk
  last handed off: \<open>(chunkStartPos + i) % delayBufferSize\<close> for \<open>0 \<le> i < sampleRate * 5\<close>.
\<close>

definition claimed_frames :: "AudioProcessor \<Rightarrow> real list" where
  "claimed_frames st =
     map (\<lambda>i. at2 (delayBuffer st) 0
                ((chunkStartPos_of st (bufferCaptureTime st) + int i) smod delayBufferSize st))
       [0..<nat (sampleRate (config st) * 5)]"

text \<open>
  The aligned segments in the words of section 4.6 of the specification, for the first
  \<open>i\<close> transcribed words and the first \<open>j\<close> lyric words: a match or a substitution
  emits the lyric word with the transcribed word's timing and 0.95 of its confidence; an
  insertion emits the lyric word from the end of the previous emitted segment (0 if none)
  for 0.3 s with confidence 0.5; a deletion emits nothing. Which of the three applies at
  \<open>(i, j)\<close> is decided as the backtracking decides it.
\<close>

function spec_aligned ::
  "int list list \<Rightarrow> string list \<Rightarrow> string list \<Rightarrow> WordSegment list \<Rightarrow> nat \<Rightarrow> nat
     \<Rightarrow> WordSegment list" where
  "spec_aligned matrix transcribedWords lyricsWords originalSegments i j =
     (if i = 0 \<and> j = 0 then []
      else if i > 0 \<and> j > 0
              \<and> (transcribedWords ! (i - 1) = lyricsWords ! (j - 1)
                   \<or> at2 matrix (int i) (int j) = at2 matrix (int i - 1) (int j - 1) + 1) then
        spec_aligned matrix transcribedWords lyricsWords originalSegments (i - 1) (j - 1)
        @ [\<lparr> word = lyricsWords ! (j - 1),
              start = start (originalSegments ! (i - 1)),
              endT = endT (originalSegments ! (i - 1)),
              confidence = confidence (originalSegments ! (i - 1)) * 0.95 \<rparr>]
      else if j > 0 \<and> at2 matrix (int i) (int j) = at2 matrix (int i) (int j - 1) + 1 then
        (let previous = spec_aligned matrix transcribedWords lyricsWords originalSegments i (j - 1);
             s = (if previous = [] then 0 else endT (last previous))
         in previous @ [\<lparr> word = lyricsWords ! (j - 1), start = s, endT = s + 0.3,
                           confidence = 0.5 \<rparr>])
      else if i > 0 then
        spec_aligned matrix transcribedWords lyricsWords originalSegments (i - 1) j
      else [])"
  by pat_completeness auto
termination
  by (relation "measure (\<lambda>(m, tw, lw, segs, i, j). i + j)") auto

declare spec_aligned.simps [simp del]

section \<open>Properties\<close>

subsection \<open>Counted loops and two-dimensional vectors\<close>


lemma for_loop_step: "i < n \<Longrightarrow> for_loop i n body s = for_loop (i + 1) n body (body i s)"
  by (subst for_loop.simps) simp

lemma for_loop_done: "\<not> i < n \<Longrightarrow> for_loop i n body s = s"
  by (subst for_loop.simps) simp

lemma for_loop_rule_aux:
  "P i s \<Longrightarrow> (\<forall>j t. i \<le> j \<and> j < n \<and> P j t \<longrightarrow> P (j + 1) (body j t)) \<Longrightarrow> i \<le> n
     \<Longrightarrow> P n (for_loop i n body s)"
proof (induction i n body s rule: for_loop.induct)
  case (1 i n body s)
  show ?case
  proof (cases "i < n")
    case True
    have "P (i + 1) (body i s)" using 1(2,3) True by simp
    moreover have "\<forall>j t. i + 1 \<le> j \<and> j < n \<and> P j t \<longrightarrow> P (j + 1) (body j t)"
      using 1(3) by simp
    ultimately have "P n (for_loop (i + 1) n body (body i s))"
      using 1(1) True by simp
    then show ?thesis using True by (simp add: for_loop_step)
  next
    case False
    then have "i = n" using 1(4) by simp
    then show ?thesis using 1(2) by (simp add: for_loop_done)
  qed
qed

lemma for_loop_rule:
  assumes "P lo s" and "\<And>j t. lo \<le> j \<Longrightarrow> j < n \<Longrightarrow> P j t \<Longrightarrow> P (j + 1) (body j t)" and "lo \<le> n"
  shows "P n (for_loop lo n body s)"
proof (rule for_loop_rule_aux)
  show "P lo s" by fact
  show "\<forall>j t. lo \<le> j \<and> j < n \<and> P j t \<longrightarrow> P (j + 1) (body j t)"
    using assms(2) by blast
  show "lo \<le> n" by fact
qed

lemma for_loop_inv:
  assumes "I s" and "\<And>j t. lo \<le> j \<Longrightarrow> j < n \<Longrightarrow> I t \<Longrightarrow> I (body j t)"
  shows "I (for_loop lo n body s)"
proof (cases "lo \<le> n")
  case True
  then show ?thesis using for_loop_rule [where P = "\<lambda>_. I", OF assms(1)] assms(2) by blast
next
  case False
  then show ?thesis using assms(1) by (simp add: for_loop_done)
qed

lemma length_put2 [simp]: "length (put2 v a b x) = length v"
  by (simp add: put2_def)

lemma length_put2_nth [simp]: "length (put2 v a b x ! c) = length (v ! c)"
proof (cases "c = nat a")
  case True
  then show ?thesis by (cases "c < length v") (simp_all add: put2_def list_update_beyond)
next
  case False
  then show ?thesis by (simp add: put2_def)
qed

lemma put2_nth:
  "c < length v \<Longrightarrow> p < length (v ! c) \<Longrightarrow>
     put2 v a b x ! c ! p = (if c = nat a \<and> p = nat b then x else v ! c ! p)"
proof (cases "c = nat a")
  case True
  assume "c < length v" "p < length (v ! c)"
  then show ?thesis using True by (simp add: put2_def nth_list_update)
next
  case False
  then show ?thesis by (simp add: put2_def)
qed

lemma same_shape_eqI:
  "same_shape v w \<Longrightarrow> (\<And>c p. c < length w \<Longrightarrow> p < length (w ! c) \<Longrightarrow> v ! c ! p = w ! c ! p) \<Longrightarrow> v = w"
  unfolding same_shape_def by (auto intro!: nth_equalityI)


subsection \<open>The Mute patch\<close>

lemma int_ivl_Suc: "s \<le> j \<Longrightarrow> {s..<j + 1} = insert j {s..<j}" for s j :: int
  by auto

lemma mute_inner:
  fixes buf :: "real list list" and s e cs L :: int
  defines "inner \<equiv> \<lambda>ch. for_loop s e (\<lambda>i buf. let delayPos = (cs + i) smod L in put2 buf ch delayPos 0)"
  shows "same_shape (inner ch buf) buf \<and>
     (\<forall>c p. c < length buf \<longrightarrow> p < length (buf ! c) \<longrightarrow>
        inner ch buf ! c ! p =
          (if c = nat ch \<and> p \<in> (\<lambda>i. nat ((cs + i) smod L)) ` {s..<e} then 0 else buf ! c ! p))"
proof (cases "s \<le> e")
  case True
  let ?f = "\<lambda>i. nat ((cs + i) smod L)"
  let ?P = "\<lambda>k b. same_shape b buf \<and>
     (\<forall>c p. c < length buf \<longrightarrow> p < length (buf ! c) \<longrightarrow>
        b ! c ! p = (if c = nat ch \<and> p \<in> ?f ` {s..<k} then 0 else buf ! c ! p))"
  have "?P e (inner ch buf)"
    unfolding inner_def
  proof (rule for_loop_rule [where P = ?P])
    show "?P s buf" by (auto simp: same_shape_def)
  next
    fix j t assume j: "s \<le> j" "j < e" and t: "?P j t"
    have sh: "same_shape (put2 t ch ((cs + j) smod L) 0) buf"
      using t by (simp add: same_shape_def)
    have "put2 t ch ((cs + j) smod L) 0 ! c ! p =
          (if c = nat ch \<and> p \<in> ?f ` {s..<j + 1} then 0 else buf ! c ! p)"
      if cp: "c < length buf" "p < length (buf ! c)" for c p
    proof -
      have cp': "c < length t" "p < length (t ! c)" using t cp by (auto simp: same_shape_def)
      have tv: "t ! c ! p = (if c = nat ch \<and> p \<in> ?f ` {s..<j} then 0 else buf ! c ! p)"
        using t cp by blast
      show ?thesis
        unfolding put2_nth [OF cp'] tv int_ivl_Suc [OF j(1)] by auto
    qed
    then show "?P (j + 1) (let delayPos = (cs + j) smod L in put2 t ch delayPos 0)"
      using sh by (simp add: Let_def)
  qed (fact True)
  then show ?thesis by simp
next
  case False
  then show ?thesis by (simp add: inner_def for_loop_done same_shape_def)
qed


lemma mute_patch_char:
  fixes buf :: "real list list"
  shows "same_shape (mute_patch nch L cs s e buf) buf \<and>
     (\<forall>c p. c < length buf \<longrightarrow> p < length (buf ! c) \<longrightarrow>
        mute_patch nch L cs s e buf ! c ! p =
          (if c \<in> nat ` {0..<nch} \<and> p \<in> (\<lambda>i. nat ((cs + i) smod L)) ` {s..<e}
           then 0 else buf ! c ! p))"
proof (cases "0 \<le> nch")
  case True
  let ?F = "(\<lambda>i. nat ((cs + i) smod L)) ` {s..<e}"
  let ?Q = "\<lambda>k b. same_shape b buf \<and>
     (\<forall>c p. c < length buf \<longrightarrow> p < length (buf ! c) \<longrightarrow>
        b ! c ! p = (if c \<in> nat ` {0..<k} \<and> p \<in> ?F then 0 else buf ! c ! p))"
  have "?Q nch (mute_patch nch L cs s e buf)"
    unfolding mute_patch_def
  proof (rule for_loop_rule [where P = ?Q])
    show "?Q 0 buf" by (auto simp: same_shape_def)
  next
    fix ch t assume ch: "0 \<le> ch" "ch < nch" and t: "?Q ch t"
    let ?t' = "for_loop s e (\<lambda>i buf. let delayPos = (cs + i) smod L in put2 buf ch delayPos 0) t"
    note inner = mute_inner [of s e cs L ch t]
    have sh: "same_shape ?t' buf"
      using inner t by (auto simp: same_shape_def)
    have "?t' ! c ! p = (if c \<in> nat ` {0..<ch + 1} \<and> p \<in> ?F then 0 else buf ! c ! p)"
      if cp: "c < length buf" "p < length (buf ! c)" for c p
    proof -
      have cp': "c < length t" "p < length (t ! c)" using t cp by (auto simp: same_shape_def)
      have tv: "t ! c ! p = (if c \<in> nat ` {0..<ch} \<and> p \<in> ?F then 0 else buf ! c ! p)"
        using t cp by blast
      have iv: "?t' ! c ! p = (if c = nat ch \<and> p \<in> ?F then 0 else t ! c ! p)"
        using inner cp' by blast
      show ?thesis
        unfolding iv tv int_ivl_Suc [OF ch(1)] by auto
    qed
    then show "?Q (ch + 1) ?t'" using sh by simp
  qed (fact True)
  then show ?thesis by simp
next
  case False
  then show ?thesis by (simp add: mute_patch_def for_loop_done same_shape_def)
qed

lemma same_shape_lengths:
  "same_shape v w \<Longrightarrow> length v = length w"
  "same_shape v w \<Longrightarrow> c < length w \<Longrightarrow> length (v ! c) = length (w ! c)"
  by (simp_all add: same_shape_def)

text \<open>
  Claim C10. Applying the Mute patch a second time to the same span leaves the delay line
  as the first application left it, and a Mute patch changes no sample outside the ring
  positions \<open>(chunkStartPos + i) % bufSize\<close>, \<open>startSample \<le> i < endSample\<close>, of its span.
\<close>

theorem mute_patch_idempotent:
  fixes buf :: "real list list"
  assumes "0 < bufSize" and "0 \<le> chunkStartPos" and "0 \<le> startSample"
  shows "mute_patch nch bufSize chunkStartPos startSample endSample
           (mute_patch nch bufSize chunkStartPos startSample endSample buf)
         = mute_patch nch bufSize chunkStartPos startSample endSample buf
       \<and> (\<forall>ch pos. 0 \<le> ch \<and> ch < int (length buf) \<and> 0 \<le> pos \<and> pos < int (length (buf ! nat ch))
             \<and> (\<forall>i. startSample \<le> i \<and> i < endSample \<longrightarrow> pos \<noteq> (chunkStartPos + i) smod bufSize)
           \<longrightarrow> at2 (mute_patch nch bufSize chunkStartPos startSample endSample buf) ch pos
               = at2 buf ch pos)"
proof
  let ?m = "mute_patch nch bufSize chunkStartPos startSample endSample"
  note c1 = mute_patch_char [of nch bufSize chunkStartPos startSample endSample buf]
  note c2 = mute_patch_char [of nch bufSize chunkStartPos startSample endSample "?m buf"]
  have sh1: "same_shape (?m buf) buf" using c1 by simp
  have sh2: "same_shape (?m (?m buf)) (?m buf)" using c2 by simp
  show "?m (?m buf) = ?m buf"
  proof (rule same_shape_eqI [OF sh2])
    fix c p assume cp: "c < length (?m buf)" "p < length (?m buf ! c)"
    then have cp0: "c < length buf" "p < length (buf ! c)"
      using sh1 by (simp_all add: same_shape_def)
    have "?m (?m buf) ! c ! p =
       (if c \<in> nat ` {0..<nch} \<and> p \<in> (\<lambda>i. nat ((chunkStartPos + i) smod bufSize)) ` {startSample..<endSample}
        then 0 else ?m buf ! c ! p)"
      using c2 cp by blast
    moreover have "?m buf ! c ! p =
       (if c \<in> nat ` {0..<nch} \<and> p \<in> (\<lambda>i. nat ((chunkStartPos + i) smod bufSize)) ` {startSample..<endSample}
        then 0 else buf ! c ! p)"
      using c1 cp0 by blast
    ultimately show "?m (?m buf) ! c ! p = ?m buf ! c ! p" by simp
  qed
next
  let ?m = "mute_patch nch bufSize chunkStartPos startSample endSample"
  note c1 = mute_patch_char [of nch bufSize chunkStartPos startSample endSample buf]
  show "\<forall>ch pos. 0 \<le> ch \<and> ch < int (length buf) \<and> 0 \<le> pos \<and> pos < int (length (buf ! nat ch))
             \<and> (\<forall>i. startSample \<le> i \<and> i < endSample \<longrightarrow> pos \<noteq> (chunkStartPos + i) smod bufSize)
           \<longrightarrow> at2 (?m buf) ch pos = at2 buf ch pos"
  proof (intro allI impI)
    fix ch pos
    assume h: "0 \<le> ch \<and> ch < int (length buf) \<and> 0 \<le> pos \<and> pos < int (length (buf ! nat ch))
             \<and> (\<forall>i. startSample \<le> i \<and> i < endSample \<longrightarrow> pos \<noteq> (chunkStartPos + i) smod bufSize)"
    then have cp: "nat ch < length buf" "nat pos < length (buf ! nat ch)" by auto
    have notin: "nat pos \<notin> (\<lambda>i. nat ((chunkStartPos + i) smod bufSize)) ` {startSample..<endSample}"
    proof
      assume "nat pos \<in> (\<lambda>i. nat ((chunkStartPos + i) smod bufSize)) ` {startSample..<endSample}"
      then obtain i where i: "startSample \<le> i" "i < endSample"
          "nat pos = nat ((chunkStartPos + i) smod bufSize)" by auto
      have "0 \<le> chunkStartPos + i" using assms i by simp
      then have "0 \<le> (chunkStartPos + i) smod bufSize"
        using assms(1) by (simp add: signed_modulo_int_def sgn_if)
      then have "pos = (chunkStartPos + i) smod bufSize"
        using i(3) h eq_nat_nat_iff [of pos "(chunkStartPos + i) smod bufSize"] by simp
      then show False using h i by blast
    qed
    have "?m buf ! nat ch ! nat pos = buf ! nat ch ! nat pos"
      using c1 cp notin by simp
    then show "at2 (?m buf) ch pos = at2 buf ch pos" by (simp add: at2_def)
  qed
qed

theorem mute_patch_idempotent_witness:
  "mute_patch 2 4 3 0 2 (mute_patch 2 4 3 0 2 [[1, 2, 3, 4], [5, 6, 7, 8]])
     = [[0, 2, 3, 0], [0, 6, 7, 0]]
   \<and> at2 (mute_patch 2 4 3 0 2 [[1, 2, 3, 4], [5, 6, 7, 8]]) 1 2 = 7"
proof -
  have e: "mute_patch 2 4 3 0 2 [[1, 2, 3, 4], [5, 6, 7, 8]] = [[0, 2, 3, 0], [0, 6, 7, 0]]"
    by code_simp
  have h: "(0::int) < 4" "(0::int) \<le> 3" "(0::int) \<le> 0" by simp_all
  note t = mute_patch_idempotent [OF h, of 2 2 "[[1, 2, 3, 4], [5, 6, 7, 8]]"]
  have a: "mute_patch 2 4 3 0 2 (mute_patch 2 4 3 0 2 [[1, 2, 3, 4], [5, 6, 7, 8]])
     = [[0, 2, 3, 0], [0, 6, 7, 0]]" using t e by simp
  have out: "\<forall>i::int. 0 \<le> i \<and> i < 2 \<longrightarrow> (2::int) \<noteq> (3 + i) smod 4"
  proof (intro allI impI)
    fix i :: int assume "0 \<le> i \<and> i < 2"
    then have "i = 0 \<or> i = 1" by auto
    then show "(2::int) \<noteq> (3 + i) smod 4" by (auto simp: signed_modulo_int_def)
  qed
  from t have "(0::int) \<le> 1 \<and> 1 < int (length [[1, 2, 3, 4], [5, 6, 7, 8::real]]) \<and> (0::int) \<le> 2
        \<and> 2 < int (length ([[1, 2, 3, 4], [5, 6, 7, 8::real]] ! nat 1))
        \<and> (\<forall>i::int. 0 \<le> i \<and> i < 2 \<longrightarrow> 2 \<noteq> (3 + i) smod 4)
      \<longrightarrow> at2 (mute_patch 2 4 3 0 2 [[1, 2, 3, 4], [5, 6, 7, 8]]) 1 2
         = at2 [[1, 2, 3, 4], [5, 6, 7, 8]] 1 2"
    by blast
  then have b: "at2 (mute_patch 2 4 3 0 2 [[1, 2, 3, 4], [5, 6, 7, 8]]) 1 2
         = at2 [[1, 2, 3, 4], [5, 6, 7, 8]] 1 2"
    using out by simp
  show ?thesis using a b by (simp add: at2_def)
qed

subsection \<open>Loops that write one cell per iteration\<close>

lemma write_loop:
  fixes buf :: "'a list list" and pos :: "int \<Rightarrow> int" and g :: "int \<Rightarrow> 'a" and lo hi ch :: int
  defines "W \<equiv> for_loop lo hi (\<lambda>i b. put2 b ch (pos i) (g i)) buf"
  shows "same_shape W buf"
    and "c < length buf \<Longrightarrow> p < length (buf ! c) \<Longrightarrow>
           \<not> (c = nat ch \<and> p \<in> (\<lambda>i. nat (pos i)) ` {lo..<hi}) \<Longrightarrow> W ! c ! p = buf ! c ! p"
    and "inj_on (\<lambda>i. nat (pos i)) {lo..<hi} \<Longrightarrow> lo \<le> i \<Longrightarrow> i < hi \<Longrightarrow> nat ch < length buf \<Longrightarrow>
           nat (pos i) < length (buf ! nat ch) \<Longrightarrow> W ! nat ch ! nat (pos i) = g i"
proof -
  let ?f = "\<lambda>i. nat (pos i)"
  let ?P = "\<lambda>k b. same_shape b buf \<and>
     (\<forall>c p. c < length buf \<longrightarrow> p < length (buf ! c) \<longrightarrow> \<not> (c = nat ch \<and> p \<in> ?f ` {lo..<k})
         \<longrightarrow> b ! c ! p = buf ! c ! p) \<and>
     (inj_on ?f {lo..<hi} \<longrightarrow> (\<forall>i. lo \<le> i \<and> i < k \<and> nat ch < length buf \<and> ?f i < length (buf ! nat ch)
         \<longrightarrow> b ! nat ch ! ?f i = g i))"
  have main: "?P hi W" if le: "lo \<le> hi"
    unfolding W_def
  proof (rule for_loop_rule [where P = ?P])
    show "?P lo buf" by (auto simp: same_shape_def)
  next
    fix j t assume j: "lo \<le> j" "j < hi" and t: "?P j t"
    let ?t' = "put2 t ch (pos j) (g j)"
    have sh: "same_shape ?t' buf" using t by (simp add: same_shape_def)
    have a: "?t' ! c ! p = buf ! c ! p"
      if cp: "c < length buf" "p < length (buf ! c)" and n: "\<not> (c = nat ch \<and> p \<in> ?f ` {lo..<j + 1})"
      for c p
    proof -
      have cp': "c < length t" "p < length (t ! c)" using t cp by (auto simp: same_shape_def)
      have n': "\<not> (c = nat ch \<and> p \<in> ?f ` {lo..<j})" "\<not> (c = nat ch \<and> p = nat (pos j))"
        using n unfolding int_ivl_Suc [OF j(1)] by auto
      have "t ! c ! p = buf ! c ! p" using t cp n'(1) by blast
      then show ?thesis using n'(2) by (auto simp: put2_nth [OF cp'])
    qed
    have b: "?t' ! nat ch ! ?f i = g i"
      if inj: "inj_on ?f {lo..<hi}" and i: "lo \<le> i" "i < j + 1" "nat ch < length buf"
         "?f i < length (buf ! nat ch)" for i
    proof -
      have cp': "nat ch < length t" "?f i < length (t ! nat ch)"
        using t i by (auto simp: same_shape_def)
      show ?thesis
      proof (cases "i = j")
        case True
        then show ?thesis using put2_nth [OF cp', of ch "pos j" "g j"] by simp
      next
        case False
        then have lt: "i < j" using i by simp
        have "i \<in> {lo..<hi}" "j \<in> {lo..<hi}" using i j lt by auto
        then have "?f i \<noteq> ?f j" using inj_onD [OF inj, of i j] lt by auto
        moreover have "t ! nat ch ! ?f i = g i" using t inj i lt by blast
        ultimately show ?thesis using put2_nth [OF cp', of ch "pos j" "g j"] by simp
      qed
    qed
    show "?P (j + 1) ?t'" using sh a b by blast
  qed (fact le)
  have triv: "W = buf" if "\<not> lo \<le> hi" using that by (simp add: W_def for_loop_done)
  show "same_shape W buf" using main triv by (cases "lo \<le> hi") (auto simp: same_shape_def)
  show "c < length buf \<Longrightarrow> p < length (buf ! c) \<Longrightarrow>
           \<not> (c = nat ch \<and> p \<in> ?f ` {lo..<hi}) \<Longrightarrow> W ! c ! p = buf ! c ! p"
    using main triv by (cases "lo \<le> hi") auto
  show "inj_on ?f {lo..<hi} \<Longrightarrow> lo \<le> i \<Longrightarrow> i < hi \<Longrightarrow> nat ch < length buf \<Longrightarrow>
           ?f i < length (buf ! nat ch) \<Longrightarrow> W ! nat ch ! ?f i = g i"
    using main by (cases "lo \<le> hi") auto
qed

lemma fill_loop:
  fixes h :: "int \<Rightarrow> 'a" and n :: int
  assumes "0 \<le> n" and "length t0 = nat n"
  defines "T \<equiv> for_loop 0 n (\<lambda>i t. t[nat i := h i]) t0"
  shows "length T = nat n" and "0 \<le> i \<Longrightarrow> i < n \<Longrightarrow> T ! nat i = h i"
proof -
  let ?P = "\<lambda>k t. length t = nat n \<and> (\<forall>i. 0 \<le> i \<and> i < k \<longrightarrow> t ! nat i = h i)"
  have "?P n T"
    unfolding T_def
  proof (rule for_loop_rule [where P = ?P])
    show "?P 0 t0" using assms by auto
  next
    fix j t assume j: "0 \<le> j" "j < n" and t: "?P j t"
    have "t[nat j := h j] ! nat i = h i" if "0 \<le> i \<and> i < j + 1" for i
    proof (cases "i = j")
      case True
      then show ?thesis using t j by simp
    next
      case False
      then have "i < j" "nat i \<noteq> nat j" using that by auto
      then show ?thesis using t that by simp
    qed
    then show "?P (j + 1) (t[nat j := h j])" using t by simp
  qed (fact assms(1))
  then show "length T = nat n" and "0 \<le> i \<Longrightarrow> i < n \<Longrightarrow> T ! nat i = h i" by auto
qed

lemma reversed_span_nth:
  assumes "0 \<le> i" and "i < n"
  shows "reversed_span L cs s n ch buf ! nat i = at2 buf ch ((cs + s + (n - 1 - i)) smod L)"
proof -
  let ?h = "\<lambda>i. at2 buf ch ((cs + s + i) smod L)"
  let ?T = "for_loop 0 n (\<lambda>i t. t[nat i := ?h i]) (replicate (nat n) (0::real))"
  have n0: "0 \<le> n" using assms by simp
  have len: "length ?T = nat n"
    by (rule fill_loop(1) [OF n0]) simp
  have nth: "?T ! nat (n - 1 - i) = ?h (n - 1 - i)"
    by (rule fill_loop(2) [OF n0]) (use assms in simp_all)
  have "reversed_span L cs s n ch buf = rev ?T"
    by (simp add: reversed_span_def Let_def)
  moreover have "rev ?T ! nat i = ?T ! (length ?T - Suc (nat i))"
    by (rule rev_nth) (use assms len in simp)
  moreover have "length ?T - Suc (nat i) = nat (n - 1 - i)"
    using assms len by simp
  ultimately show ?thesis using nth by simp
qed

subsection \<open>The Reverse patch\<close>

lemma smod_nonneg: "0 \<le> a \<Longrightarrow> 0 < b \<Longrightarrow> a smod b = a mod b" for a b :: int
  by (cases "a = 0") (simp_all add: signed_modulo_int_def sgn_if)

lemma ring_pos_bounds:
  fixes a L :: int
  assumes "0 \<le> a" and "0 < L"
  shows "0 \<le> a smod L" and "a smod L < L" and "nat (a smod L) < nat L"
  using assms by (simp_all add: smod_nonneg)

lemma ring_pos_inj:
  fixes base L n :: int
  assumes "0 < L" and "0 \<le> base" and "n \<le> L"
  shows "inj_on (\<lambda>i. nat ((base + i) smod L)) {0..<n}"
proof (rule inj_onI)
  fix x y assume x: "x \<in> {0..<n}" and y: "y \<in> {0..<n}"
    and e: "nat ((base + x) smod L) = nat ((base + y) smod L)"
  have "0 \<le> (base + x) mod L" "0 \<le> (base + y) mod L" using assms by simp_all
  moreover have "nat ((base + x) mod L) = nat ((base + y) mod L)"
    using e x y assms by (simp add: smod_nonneg)
  ultimately have "(base + x) mod L = (base + y) mod L"
    using eq_nat_nat_iff by blast
  then have "L dvd (base + x) - (base + y)" by (simp add: mod_eq_dvd_iff)
  then have d: "L dvd x - y" by simp
  have "\<bar>x - y\<bar> < L" using x y assms by auto
  have "x - y = 0"
  proof (rule ccontr)
    assume "x - y \<noteq> 0"
    then have "\<bar>L\<bar> \<le> \<bar>x - y\<bar>" using d dvd_imp_le_int by blast
    then show False using \<open>\<bar>x - y\<bar> < L\<close> by simp
  qed
  then show "x = y" by simp
qed

lemma reverse_outer:
  fixes E :: "int \<Rightarrow> real \<Rightarrow> real" and buf :: "real list list" and nch n cs s L :: int
  defines "R \<equiv> for_loop 0 nch
       (\<lambda>ch b. for_loop 0 n
          (\<lambda>i b'. put2 b' ch ((cs + s + i) smod L) (E i (reversed_span L cs s n ch b ! nat i))) b) buf"
  assumes wf: "0 < L" "0 \<le> cs + s" "n \<le> L" "nat nch \<le> length buf"
      "\<forall>c < nat nch. length (buf ! c) = nat L"
  shows "same_shape R buf"
    and "0 \<le> ch \<Longrightarrow> ch < nch \<Longrightarrow> 0 \<le> i \<Longrightarrow> i < n \<Longrightarrow>
           at2 R ch ((cs + s + i) smod L) = E i (at2 buf ch ((cs + s + (n - 1 - i)) smod L))"
    and "c < length buf \<Longrightarrow> p < length (buf ! c) \<Longrightarrow>
           \<not> (c \<in> nat ` {0..<nch} \<and> p \<in> (\<lambda>i. nat ((cs + s + i) smod L)) ` {0..<n}) \<Longrightarrow>
           R ! c ! p = buf ! c ! p"
proof -
  let ?pos = "\<lambda>i. (cs + s + i) smod L"
  let ?f = "\<lambda>i. nat (?pos i)"
  let ?V = "\<lambda>ch i. E i (at2 buf ch (?pos (n - 1 - i)))"
  let ?Q = "\<lambda>k b. same_shape b buf \<and>
     (\<forall>ch i. 0 \<le> ch \<and> ch < k \<and> 0 \<le> i \<and> i < n \<longrightarrow> b ! nat ch ! ?f i = ?V ch i) \<and>
     (\<forall>c p. c < length buf \<longrightarrow> p < length (buf ! c) \<longrightarrow> \<not> (c \<in> nat ` {0..<k} \<and> p \<in> ?f ` {0..<n})
         \<longrightarrow> b ! c ! p = buf ! c ! p)"
  have inj: "inj_on ?f {0..<n}"
    using ring_pos_inj [OF wf(1) wf(2) wf(3)] by (simp add: add.assoc)
  have inrange: "?f i < nat L" if "0 \<le> i" for i
    using ring_pos_bounds(3) [of "cs + s + i" L] wf that by simp
  have main: "?Q nch R" if le: "0 \<le> nch"
    unfolding R_def
  proof (rule for_loop_rule [where P = ?Q])
    show "?Q 0 buf" by (auto simp: same_shape_def)
  next
    fix ch t assume ch: "0 \<le> ch" "ch < nch" and t: "?Q ch t"
    let ?g = "\<lambda>i. E i (reversed_span L cs s n ch t ! nat i)"
    let ?t' = "for_loop 0 n (\<lambda>i b'. put2 b' ch (?pos i) (?g i)) t"
    have sht: "same_shape t buf" using t by simp
    have chlen: "nat ch < length buf" "length (buf ! nat ch) = nat L"
      using ch wf by auto
    have chlen': "nat ch < length t" "length (t ! nat ch) = nat L"
      using sht chlen by (auto simp: same_shape_def)
    have sh: "same_shape ?t' buf"
      using write_loop(1) [of 0 n ch ?pos ?g t] sht by (auto simp: same_shape_def)
    have tch: "t ! nat ch ! ?f j = buf ! nat ch ! ?f j" if "0 \<le> j" for j
    proof -
      have "nat ch \<notin> nat ` {0..<ch}" using ch by auto
      moreover have "?f j < length (buf ! nat ch)" using inrange [OF that] chlen by simp
      ultimately show ?thesis using t chlen by blast
    qed
    have new: "?t' ! nat ch ! ?f i = ?V ch i" if i: "0 \<le> i" "i < n" for i
    proof -
      have "?t' ! nat ch ! ?f i = ?g i"
        by (rule write_loop(3) [OF inj i chlen'(1)]) (use inrange [OF i(1)] chlen' in simp)
      moreover have "reversed_span L cs s n ch t ! nat i = at2 t ch (?pos (n - 1 - i))"
        by (rule reversed_span_nth [OF i])
      moreover have "at2 t ch (?pos (n - 1 - i)) = at2 buf ch (?pos (n - 1 - i))"
        using tch [of "n - 1 - i"] i by (simp add: at2_def)
      ultimately show ?thesis by simp
    qed
    have old: "?t' ! c ! p = t ! c ! p"
      if "c < length buf" "p < length (buf ! c)" "\<not> (c = nat ch \<and> p \<in> ?f ` {0..<n})" for c p
    proof -
      have "c < length t" "p < length (t ! c)" using that sht by (auto simp: same_shape_def)
      then show ?thesis using write_loop(2) [of c t p ch ?pos 0 n ?g] that(3) by blast
    qed
    have a: "?t' ! nat ch' ! ?f i = ?V ch' i"
      if h: "0 \<le> ch' \<and> ch' < ch + 1 \<and> 0 \<le> i \<and> i < n" for ch' i
    proof (cases "ch' = ch")
      case True
      then show ?thesis using new h by simp
    next
      case False
      then have lt: "ch' < ch" using h by simp
      then have ne: "nat ch' \<noteq> nat ch" using h by arith
      have "nat ch' < length buf" using lt ch h wf(4) by arith
      moreover have "?f i < length (buf ! nat ch')" using inrange [of i] h wf lt ch by simp
      ultimately have "?t' ! nat ch' ! ?f i = t ! nat ch' ! ?f i" using old ne by blast
      then show ?thesis using t h lt by simp
    qed
    have b: "?t' ! c ! p = buf ! c ! p"
      if cp: "c < length buf" "p < length (buf ! c)"
        and n: "\<not> (c \<in> nat ` {0..<ch + 1} \<and> p \<in> ?f ` {0..<n})" for c p
    proof -
      have n1: "\<not> (c = nat ch \<and> p \<in> ?f ` {0..<n})" "\<not> (c \<in> nat ` {0..<ch} \<and> p \<in> ?f ` {0..<n})"
        using n unfolding int_ivl_Suc [OF ch(1)] by auto
      have "?t' ! c ! p = t ! c ! p" using old cp n1(1) by blast
      also have "\<dots> = buf ! c ! p" using t cp n1(2) by blast
      finally show ?thesis .
    qed
    show "?Q (ch + 1) ?t'" using sh a b by blast
  qed (fact le)
  have triv: "R = buf" if "\<not> 0 \<le> nch" using that by (simp add: R_def for_loop_done)
  show "same_shape R buf" using main triv by (cases "0 \<le> nch") (auto simp: same_shape_def)
  show "0 \<le> ch \<Longrightarrow> ch < nch \<Longrightarrow> 0 \<le> i \<Longrightarrow> i < n \<Longrightarrow> at2 R ch (?pos i) = ?V ch i"
    using main by (cases "0 \<le> nch") (auto simp: at2_def)
  show "c < length buf \<Longrightarrow> p < length (buf ! c) \<Longrightarrow>
           \<not> (c \<in> nat ` {0..<nch} \<and> p \<in> ?f ` {0..<n}) \<Longrightarrow> R ! c ! p = buf ! c ! p"
    using main triv by (cases "0 \<le> nch") auto
qed

lemma reverse_patch_sample:
  fixes buf :: "real list list"
  assumes "0 < L" "0 \<le> cs + s" "n \<le> L" "nat nch \<le> length buf"
      "\<forall>c < nat nch. length (buf ! c) = nat L"
    and "0 \<le> ch" "ch < nch" "0 \<le> i" "i < n"
  shows "at2 (reverse_patch nch L cs s n fade buf) ch ((cs + s + i) smod L)
           = at2 buf ch ((cs + s + (n - 1 - i)) smod L) * 0.5 * fade_ramp n fade i"
proof -
  let ?E = "\<lambda>i x. (if i < fade then x * ((real_of_int i / real_of_int fade) * 0.5)
                    else if i \<ge> n - fade then x * ((real_of_int (n - i) / real_of_int fade) * 0.5)
                    else x * 0.5 :: real)"
  have eq: "reverse_patch nch L cs s n fade buf = for_loop 0 nch
       (\<lambda>ch b. for_loop 0 n
          (\<lambda>i b'. put2 b' ch ((cs + s + i) smod L) (?E i (reversed_span L cs s n ch b ! nat i))) b) buf"
    unfolding reverse_patch_def Let_def by (rule refl)
  have "at2 (reverse_patch nch L cs s n fade buf) ch ((cs + s + i) smod L)
          = ?E i (at2 buf ch ((cs + s + (n - 1 - i)) smod L))"
    unfolding eq by (rule reverse_outer(2) [OF assms])
  also have "\<dots> = at2 buf ch ((cs + s + (n - 1 - i)) smod L) * 0.5 * fade_ramp n fade i"
    by (simp add: fade_ramp_def)
  finally show ?thesis .
qed

lemma reverse_patch2_sample:
  fixes buf :: "real list list"
  assumes "0 < L" "0 \<le> cs + s" "n \<le> L" "nat nch \<le> length buf"
      "\<forall>c < nat nch. length (buf ! c) = nat L"
    and "0 \<le> ch" "ch < nch" "0 \<le> i" "i < n"
  shows "at2 (reverse_patch2 nch L cs s n fade buf) ch ((cs + s + i) smod L)
           = at2 buf ch ((cs + s + (n - 1 - i)) smod L) * 0.5 * fade_ramp n fade i"
proof -
  let ?E = "\<lambda>i x. (if i < fade then x * 0.5 * (real_of_int i / real_of_int fade)
                    else if i \<ge> n - fade then x * 0.5 * (real_of_int (n - i) / real_of_int fade)
                    else x * 0.5 :: real)"
  have eq: "reverse_patch2 nch L cs s n fade buf = for_loop 0 nch
       (\<lambda>ch b. for_loop 0 n
          (\<lambda>i b'. put2 b' ch ((cs + s + i) smod L) (?E i (reversed_span L cs s n ch b ! nat i))) b) buf"
    unfolding reverse_patch2_def Let_def by (rule refl)
  have "at2 (reverse_patch2 nch L cs s n fade buf) ch ((cs + s + i) smod L)
          = ?E i (at2 buf ch ((cs + s + (n - 1 - i)) smod L))"
    unfolding eq by (rule reverse_outer(2) [OF assms])
  also have "\<dots> = at2 buf ch ((cs + s + (n - 1 - i)) smod L) * 0.5 * fade_ramp n fade i"
    by (simp add: fade_ramp_def)
  finally show ?thesis .
qed

lemma reverse_patch_outside:
  fixes buf :: "real list list"
  assumes "0 < L" "0 \<le> cs + s" "n \<le> L" "nat nch \<le> length buf"
      "\<forall>c < nat nch. length (buf ! c) = nat L"
  shows "same_shape (reverse_patch nch L cs s n fade buf) buf"
    and "c < length buf \<Longrightarrow> p < length (buf ! c) \<Longrightarrow>
           p \<notin> (\<lambda>i. nat ((cs + s + i) smod L)) ` {0..<n} \<Longrightarrow>
           reverse_patch nch L cs s n fade buf ! c ! p = buf ! c ! p"
    and "same_shape (reverse_patch2 nch L cs s n fade buf) buf"
    and "c < length buf \<Longrightarrow> p < length (buf ! c) \<Longrightarrow>
           p \<notin> (\<lambda>i. nat ((cs + s + i) smod L)) ` {0..<n} \<Longrightarrow>
           reverse_patch2 nch L cs s n fade buf ! c ! p = buf ! c ! p"
proof -
  let ?E = "\<lambda>i x. (if i < fade then x * ((real_of_int i / real_of_int fade) * 0.5)
                    else if i \<ge> n - fade then x * ((real_of_int (n - i) / real_of_int fade) * 0.5)
                    else x * 0.5 :: real)"
  let ?E2 = "\<lambda>i x. (if i < fade then x * 0.5 * (real_of_int i / real_of_int fade)
                    else if i \<ge> n - fade then x * 0.5 * (real_of_int (n - i) / real_of_int fade)
                    else x * 0.5 :: real)"
  have eq: "reverse_patch nch L cs s n fade buf = for_loop 0 nch
       (\<lambda>ch b. for_loop 0 n
          (\<lambda>i b'. put2 b' ch ((cs + s + i) smod L) (?E i (reversed_span L cs s n ch b ! nat i))) b) buf"
    unfolding reverse_patch_def Let_def by (rule refl)
  have eq2: "reverse_patch2 nch L cs s n fade buf = for_loop 0 nch
       (\<lambda>ch b. for_loop 0 n
          (\<lambda>i b'. put2 b' ch ((cs + s + i) smod L) (?E2 i (reversed_span L cs s n ch b ! nat i))) b) buf"
    unfolding reverse_patch2_def Let_def by (rule refl)
  show "same_shape (reverse_patch nch L cs s n fade buf) buf"
    unfolding eq by (rule reverse_outer(1) [OF assms])
  show "same_shape (reverse_patch2 nch L cs s n fade buf) buf"
    unfolding eq2 by (rule reverse_outer(1) [OF assms])
  show "c < length buf \<Longrightarrow> p < length (buf ! c) \<Longrightarrow>
           p \<notin> (\<lambda>i. nat ((cs + s + i) smod L)) ` {0..<n} \<Longrightarrow>
           reverse_patch nch L cs s n fade buf ! c ! p = buf ! c ! p"
    unfolding eq using reverse_outer(3) [where E = ?E, OF assms] by blast
  show "c < length buf \<Longrightarrow> p < length (buf ! c) \<Longrightarrow>
           p \<notin> (\<lambda>i. nat ((cs + s + i) smod L)) ` {0..<n} \<Longrightarrow>
           reverse_patch2 nch L cs s n fade buf ! c ! p = buf ! c ! p"
    unfolding eq2 using reverse_outer(3) [where E = ?E2, OF assms] by blast
qed

lemma mute_patch_sample:
  fixes buf :: "real list list"
  assumes "0 < L" "0 \<le> cs + s" "nat nch \<le> length buf"
      "\<forall>c < nat nch. length (buf ! c) = nat L"
    and "0 \<le> ch" "ch < nch" "s \<le> i" "i < e"
  shows "at2 (mute_patch nch L cs s e buf) ch ((cs + i) smod L) = 0"
proof -
  have c: "nat ch < length buf" using assms by arith
  have "0 \<le> cs + i" using assms by simp
  then have "nat ((cs + i) smod L) < nat L"
    using ring_pos_bounds(3) assms(1) by blast
  moreover have "length (buf ! nat ch) = nat L" using assms by auto
  ultimately have p: "nat ((cs + i) smod L) < length (buf ! nat ch)" by simp
  have "nat ch \<in> nat ` {0..<nch}" using assms by auto
  moreover have "nat ((cs + i) smod L) \<in> (\<lambda>i. nat ((cs + i) smod L)) ` {s..<e}"
    using assms by auto
  ultimately show ?thesis
    using mute_patch_char [of nch L cs s e buf] c p by (simp add: at2_def)
qed

lemma hit_span_bounds:
  assumes "0 \<le> sampleRate cfg"
  shows "0 \<le> hit_startSample cfg hs"
    and "hit_startSample cfg hs \<le> hit_endSample cfg hs he"
    and "hit_endSample cfg hs he \<le> sampleRate cfg * 5"
  using assms by (auto simp: hit_startSample_def hit_endSample_def Let_def)

lemma sdiv_nonneg: "0 \<le> a \<Longrightarrow> 0 < b \<Longrightarrow> a sdiv b = a div b" for a b :: int
  by (cases "a = 0") (simp_all add: signed_divide_int_def sgn_if)

subsection \<open>The word loop and its hits\<close>

lemma censor_word_fields [simp]:
  "config (censor_word cs w st) = config st"
  "delayBufferSize (censor_word cs w st) = delayBufferSize st"
  "bufferUnderrun (censor_word cs w st) = bufferUnderrun st"
  by (simp_all add: censor_word_def Let_def)

lemma censor_pair_fields [simp]:
  "config (censor_pair cs w w2 st) = config st"
  "delayBufferSize (censor_pair cs w w2 st) = delayBufferSize st"
  "bufferUnderrun (censor_pair cs w w2 st) = bufferUnderrun st"
  by (simp_all add: censor_pair_def Let_def)

lemma apply_hit_fields [simp]:
  "config (apply_hit cs ws st h) = config st"
  "delayBufferSize (apply_hit cs ws st h) = delayBufferSize st"
  "bufferUnderrun (apply_hit cs ws st h) = bufferUnderrun st"
  by (cases h; simp)+

lemma foldl_apply_hit_fields [simp]:
  "config (foldl (apply_hit cs ws) st hs) = config st"
  "delayBufferSize (foldl (apply_hit cs ws) st hs) = delayBufferSize st"
  "bufferUnderrun (foldl (apply_hit cs ws) st hs) = bufferUnderrun st"
  by (induction hs arbitrary: st; simp)+

lemma censor_word_transcript:
  "censor_word cs w (st\<lparr> fullTranscript := x \<rparr>) = (censor_word cs w st)\<lparr> fullTranscript := x \<rparr>"
  by (cases "censorMode (config st)") (simp_all add: censor_word_def Let_def)

lemma censor_pair_transcript:
  "censor_pair cs w w2 (st\<lparr> fullTranscript := x \<rparr>) = (censor_pair cs w w2 st)\<lparr> fullTranscript := x \<rparr>"
  by (cases "censorMode (config st)") (simp_all add: censor_pair_def Let_def)

lemma apply_hit_transcript:
  "apply_hit cs ws (st\<lparr> fullTranscript := x \<rparr>) h = (apply_hit cs ws st h)\<lparr> fullTranscript := x \<rparr>"
  by (cases h) (simp_all add: censor_word_transcript censor_pair_transcript)

lemma foldl_apply_hit_transcript:
  "foldl (apply_hit cs ws) (st\<lparr> fullTranscript := x \<rparr>) hs
     = (foldl (apply_hit cs ws) st hs)\<lparr> fullTranscript := x \<rparr>"
  by (induction hs arbitrary: st) (simp_all add: apply_hit_transcript)

lemma strip_foldl_transcript [simp]:
  "strip_transcript (foldl (apply_hit cs ws) (st\<lparr> fullTranscript := x \<rparr>) hs)
     = strip_transcript (foldl (apply_hit cs ws) st hs)"
  by (simp add: foldl_apply_hit_transcript strip_transcript_def)

lemma strip_update [simp]: "strip_transcript (st\<lparr> fullTranscript := x \<rparr>) = strip_transcript st"
  by (simp add: strip_transcript_def)

lemma word_loop_hits:
  "strip_transcript (word_loop cp cs ws idx st)
     = strip_transcript (foldl (apply_hit cs ws) st (if bufferUnderrun st then [] else scan_hits cp ws idx))"
proof (induction "length ws - idx" arbitrary: idx st rule: less_induct)
  case less
  show ?case
  proof (cases "idx < length ws")
    case False
    then show ?thesis
      by (subst word_loop.simps, subst scan_hits.simps) simp
  next
    case True
    let ?st1 = "st\<lparr> fullTranscript := fullTranscript st @ word (ws ! idx) @ '' '' \<rparr>"
    have ih1: "strip_transcript (word_loop cp cs ws (Suc idx) s)
       = strip_transcript (foldl (apply_hit cs ws) s (if bufferUnderrun s then [] else scan_hits cp ws (Suc idx)))" for s
      using less [of "Suc idx" s] True by simp
    have ih2: "strip_transcript (word_loop cp cs ws (Suc (Suc idx)) s)
       = strip_transcript (foldl (apply_hit cs ws) s (if bufferUnderrun s then [] else scan_hits cp ws (Suc (Suc idx))))" for s
      using less [of "Suc (Suc idx)" s] True by simp
    show ?thesis
    proof (cases "bufferUnderrun st")
      case ur: True
      show ?thesis
        by (subst word_loop.simps) (simp add: True ur Let_def ih1)
    next
      case ur: False
      show ?thesis
        by (subst word_loop.simps, subst scan_hits.simps)
           (simp add: True ur Let_def ih1 ih2 pair_match_def censor_word_transcript
              censor_pair_transcript)
    qed
  qed
qed

subsection \<open>Patches stay inside the chunk\<close>

lemma strip_fields:
  "delayBuffer (strip_transcript st) = delayBuffer st"
  "profanityCount (strip_transcript st) = profanityCount st"
  "detectedWords (strip_transcript st) = detectedWords st"
  "bufferUnderrun (strip_transcript st) = bufferUnderrun st"
  by (simp_all add: strip_transcript_def)

lemma word_loop_delayBuffer:
  "delayBuffer (word_loop cp cs ws idx st)
     = delayBuffer (foldl (apply_hit cs ws) st (if bufferUnderrun st then [] else scan_hits cp ws idx))"
  using arg_cong [OF word_loop_hits [of cp cs ws idx st], of delayBuffer]
  by (simp only: strip_fields)


lemma unchanged_outside_refl: "unchanged_outside L cs K buf buf"
  by (simp add: unchanged_outside_def same_shape_def)

lemma unchanged_outside_trans:
  assumes "unchanged_outside L cs K a b" and "unchanged_outside L cs K b c"
  shows "unchanged_outside L cs K a c"
  using assms unfolding unchanged_outside_def same_shape_def by auto

lemma mute_unchanged:
  fixes buf :: "real list list"
  assumes "0 \<le> s" and "e \<le> K"
  shows "unchanged_outside L cs K buf (mute_patch nch L cs s e buf)"
proof -
  have sub: "(\<lambda>i. nat ((cs + i) smod L)) ` {s..<e} \<subseteq> (\<lambda>i. nat ((cs + i) smod L)) ` {0..<K}"
    using assms by (intro image_mono) auto
  show ?thesis
    unfolding unchanged_outside_def
    using mute_patch_char [of nch L cs s e buf] sub by auto
qed

lemma reverse_unchanged:
  fixes buf :: "real list list"
  assumes "0 < L" "0 \<le> cs + s" "n \<le> L" "nat nch \<le> length buf"
      "\<forall>c < nat nch. length (buf ! c) = nat L" and "0 \<le> s" and "s + n \<le> K"
  shows "unchanged_outside L cs K buf (reverse_patch nch L cs s n fade buf)"
    and "unchanged_outside L cs K buf (reverse_patch2 nch L cs s n fade buf)"
proof -
  have sub: "(\<lambda>i. nat ((cs + s + i) smod L)) ` {0..<n} \<subseteq> (\<lambda>i. nat ((cs + i) smod L)) ` {0..<K}"
  proof
    fix p assume "p \<in> (\<lambda>i. nat ((cs + s + i) smod L)) ` {0..<n}"
    then obtain i where i: "0 \<le> i" "i < n" "p = nat ((cs + s + i) smod L)" by auto
    have "s + i \<in> {0..<K}" using i assms by auto
    moreover have "p = nat ((cs + (s + i)) smod L)" using i by (simp add: add.assoc)
    ultimately show "p \<in> (\<lambda>i. nat ((cs + i) smod L)) ` {0..<K}" by blast
  qed
  note w = assms(1-5)
  show "unchanged_outside L cs K buf (reverse_patch nch L cs s n fade buf)"
    unfolding unchanged_outside_def
    using reverse_patch_outside(1) [OF w] reverse_patch_outside(2) [OF w] sub by blast
  show "unchanged_outside L cs K buf (reverse_patch2 nch L cs s n fade buf)"
    unfolding unchanged_outside_def
    using reverse_patch_outside(3) [OF w] reverse_patch_outside(4) [OF w] sub by blast
qed

lemma delay_wf_buffer:
  assumes "delay_wf st"
  shows "0 < delayBufferSize st"
    "nat (channels (config st)) \<le> length (delayBuffer st)"
    "\<forall>c < nat (channels (config st)). length (delayBuffer st ! c) = nat (delayBufferSize st)"
  using assms by (simp_all add: delay_wf_def)

lemma delay_wf_span:
  fixes hs he :: real
  assumes "delay_wf st" and "0 \<le> cs"
  shows "0 \<le> cs + hit_startSample (config st) hs"
    "hit_endSample (config st) hs he - hit_startSample (config st) hs \<le> delayBufferSize st"
    "0 \<le> hit_startSample (config st) hs"
    "hit_startSample (config st) hs + (hit_endSample (config st) hs he - hit_startSample (config st) hs)
       \<le> sampleRate (config st) * 5"
    "hit_startSample (config st) hs \<le> hit_endSample (config st) hs he"
    "hit_endSample (config st) hs he \<le> sampleRate (config st) * 5"
proof -
  have F: "0 \<le> sampleRate (config st)" using assms(1) by (simp add: delay_wf_def)
  note b = hit_span_bounds [OF F]
  show "0 \<le> cs + hit_startSample (config st) hs" using b(1) [of hs] assms(2) by linarith
  have "sampleRate (config st) * 5 \<le> delayBufferSize st" using assms(1) by (simp add: delay_wf_def)
  then show "hit_endSample (config st) hs he - hit_startSample (config st) hs \<le> delayBufferSize st"
    using b(1) [of hs] b(3) [of hs he] by linarith
  show "0 \<le> hit_startSample (config st) hs" using b by simp
  show "hit_startSample (config st) hs + (hit_endSample (config st) hs he - hit_startSample (config st) hs)
       \<le> sampleRate (config st) * 5" using b by simp
  show "hit_startSample (config st) hs \<le> hit_endSample (config st) hs he" using b by simp
  show "hit_endSample (config st) hs he \<le> sampleRate (config st) * 5" using b by simp
qed

lemma delay_wf_same_shape:
  assumes "delay_wf st" and "same_shape buf (delayBuffer st)"
    and "config st' = config st" and "delayBufferSize st' = delayBufferSize st"
    and "delayBuffer st' = buf"
  shows "delay_wf st'"
  using assms unfolding delay_wf_def same_shape_def by auto

lemma censor_word_unchanged:
  assumes "delay_wf st" and "0 \<le> cs"
  shows "unchanged_outside (delayBufferSize st) cs (sampleRate (config st) * 5)
           (delayBuffer st) (delayBuffer (censor_word cs w st))"
proof -
  note d = delay_wf_buffer [OF assms(1)]
  note a = delay_wf_span [OF assms]
  show ?thesis
  proof (cases "censorMode (config st)")
    case Reverse
    then show ?thesis
      using reverse_unchanged(1) [OF d(1) a(1) a(2) d(2) d(3) a(3) a(4)]
      by (simp add: censor_word_def Let_def)
  next
    case Mute
    then show ?thesis
      using mute_unchanged [OF a(3) a(6)]
      by (simp add: censor_word_def Let_def)
  qed
qed

lemma censor_pair_unchanged:
  assumes "delay_wf st" and "0 \<le> cs"
  shows "unchanged_outside (delayBufferSize st) cs (sampleRate (config st) * 5)
           (delayBuffer st) (delayBuffer (censor_pair cs w w2 st))"
proof -
  note d = delay_wf_buffer [OF assms(1)]
  note a = delay_wf_span [OF assms]
  show ?thesis
  proof (cases "censorMode (config st)")
    case Reverse
    then show ?thesis
      using reverse_unchanged(2) [OF d(1) a(1) a(2) d(2) d(3) a(3) a(4)]
      by (simp add: censor_pair_def Let_def)
  next
    case Mute
    then show ?thesis
      using mute_unchanged [OF a(3) a(6)]
      by (simp add: censor_pair_def Let_def)
  qed
qed

lemma apply_hit_unchanged:
  assumes "delay_wf st" and "0 \<le> cs"
  shows "unchanged_outside (delayBufferSize st) cs (sampleRate (config st) * 5)
           (delayBuffer st) (delayBuffer (apply_hit cs ws st h))"
    and "delay_wf (apply_hit cs ws st h)"
proof -
  show u: "unchanged_outside (delayBufferSize st) cs (sampleRate (config st) * 5)
           (delayBuffer st) (delayBuffer (apply_hit cs ws st h))"
    using censor_word_unchanged [OF assms] censor_pair_unchanged [OF assms] by (cases h) simp_all
  show "delay_wf (apply_hit cs ws st h)"
    by (rule delay_wf_same_shape [OF assms(1)]) (use u in \<open>simp_all add: unchanged_outside_def\<close>)
qed

lemma foldl_apply_hit_unchanged:
  assumes "delay_wf st" and "0 \<le> cs"
  shows "unchanged_outside (delayBufferSize st) cs (sampleRate (config st) * 5)
           (delayBuffer st) (delayBuffer (foldl (apply_hit cs ws) st hs))"
  using assms(1)
proof (induction hs arbitrary: st)
  case Nil
  then show ?case by (simp add: unchanged_outside_refl)
next
  case (Cons h hs)
  note s1 = apply_hit_unchanged [OF Cons.prems assms(2), of ws h]
  have "unchanged_outside (delayBufferSize st) cs (sampleRate (config st) * 5)
           (delayBuffer (apply_hit cs ws st h)) (delayBuffer (foldl (apply_hit cs ws) (apply_hit cs ws st h) hs))"
    using Cons.IH [OF s1(2)] by simp
  then show ?case using unchanged_outside_trans [OF s1(1)] by simp
qed

lemma c_int_nonneg: "0 \<le> x \<Longrightarrow> 0 \<le> c_int x"
  by (simp add: c_int_def)

lemma chunkStartPos_nonneg:
  assumes "delay_wf st" and "0 \<le> captureTime"
  shows "0 \<le> chunkStartPos_of st captureTime"
proof -
  have "0 \<le> c_int captureTime - sampleRate (config st) * 5 + delayBufferSize st"
    using c_int_nonneg [OF assms(2)] assms(1) by (simp add: delay_wf_def)
  then show ?thesis
    using ring_pos_bounds(1) assms(1) by (simp add: chunkStartPos_of_def Let_def delay_wf_def)
qed

lemma example_processor_wf: "delay_wf example_processor"
  by (simp add: delay_wf_def example_processor_def constructed_def default_Config_def)

text \<open>
  Claim C7. The padded span of every hit is clamped to \<open>0 \<le> s \<le> e \<le> K\<close>, where \<open>K\<close> is
  the chunk length \<open>sampleRate * 5\<close> that the censor uses (the value of
  \<open>sampleRate * chunkSeconds\<close> for the 5 second chunks of the engine); and whatever the
  transcript and the lexicon, the censor leaves every delay-line position outside the ring
  positions \<open>(chunkStartPos + i) % delayBufferSize\<close>, \<open>0 \<le> i < K\<close>, of the chunk as it was.
\<close>

theorem hit_span_within_chunk:
  assumes "delay_wf st" and "0 \<le> captureTime"
  shows "(\<forall>hitStart hitEnd.
            0 \<le> hit_startSample (config st) hitStart
            \<and> hit_startSample (config st) hitStart \<le> hit_endSample (config st) hitStart hitEnd
            \<and> hit_endSample (config st) hitStart hitEnd \<le> sampleRate (config st) * 5)
       \<and> (\<forall>ch pos. 0 \<le> ch \<and> ch < channels (config st) \<and> 0 \<le> pos \<and> pos < delayBufferSize st
            \<and> (\<forall>i. 0 \<le> i \<and> i < sampleRate (config st) * 5 \<longrightarrow>
                   pos \<noteq> (chunkStartPos_of st captureTime + i) smod delayBufferSize st)
            \<longrightarrow> at2 (delayBuffer (processTranscription containsProfanity transcribedWords captureTime st)) ch pos
                = at2 (delayBuffer st) ch pos)"
proof (intro conjI allI impI)
  have F: "0 \<le> sampleRate (config st)" using assms(1) by (simp add: delay_wf_def)
  fix hitStart hitEnd
  show "0 \<le> hit_startSample (config st) hitStart"
    and "hit_startSample (config st) hitStart \<le> hit_endSample (config st) hitStart hitEnd"
    and "hit_endSample (config st) hitStart hitEnd \<le> sampleRate (config st) * 5"
    using hit_span_bounds [OF F] by blast+
next
  fix ch pos
  let ?L = "delayBufferSize st" and ?K = "sampleRate (config st) * 5"
  let ?cs = "chunkStartPos_of st captureTime"
  let ?st0 = "st\<lparr> detectedWords := [], fullTranscript := [] \<rparr>"
  assume h: "0 \<le> ch \<and> ch < channels (config st) \<and> 0 \<le> pos \<and> pos < ?L
            \<and> (\<forall>i. 0 \<le> i \<and> i < ?K \<longrightarrow> pos \<noteq> (?cs + i) smod ?L)"
  have wf0: "delay_wf ?st0" using assms(1) by (simp add: delay_wf_def)
  have cs0: "chunkStartPos_of ?st0 captureTime = ?cs" by (simp add: chunkStartPos_of_def)
  have cs: "0 \<le> ?cs" by (rule chunkStartPos_nonneg [OF assms])
  have L: "0 < ?L" using assms(1) by (simp add: delay_wf_def)
  have "unchanged_outside ?L ?cs ?K (delayBuffer st)
          (delayBuffer (processTranscription containsProfanity transcribedWords captureTime st))"
    using foldl_apply_hit_unchanged [OF wf0 cs]
    by (simp add: processTranscription_def cs0 word_loop_delayBuffer)
  moreover have c: "nat ch < length (delayBuffer st)"
    using h assms(1) by (simp add: delay_wf_def)
  moreover have p: "nat pos < length (delayBuffer st ! nat ch)"
    using h c assms(1) by (simp add: delay_wf_def)
  moreover have "nat pos \<notin> (\<lambda>i. nat ((?cs + i) smod ?L)) ` {0..<?K}"
  proof
    assume "nat pos \<in> (\<lambda>i. nat ((?cs + i) smod ?L)) ` {0..<?K}"
    then obtain i where i: "0 \<le> i" "i < ?K" "nat pos = nat ((?cs + i) smod ?L)" by auto
    have "0 \<le> (?cs + i) smod ?L" using ring_pos_bounds(1) [of "?cs + i" ?L] cs i L by simp
    then have "pos = (?cs + i) smod ?L"
      using i(3) h eq_nat_nat_iff [of pos "(?cs + i) smod ?L"] by simp
    then show False using h i by blast
  qed
  ultimately show "at2 (delayBuffer (processTranscription containsProfanity transcribedWords captureTime st)) ch pos
                = at2 (delayBuffer st) ch pos"
    unfolding unchanged_outside_def at2_def by blast
qed

theorem hit_span_within_chunk_witness:
  "delay_wf example_processor \<and> (0::real) \<le> 10
   \<and> hit_startSample (config example_processor) 0 = 0
   \<and> hit_endSample (config example_processor) 0 7 = 10
   \<and> at2 (delayBuffer (processTranscription (\<lambda>w. w = ''damn'')
            [\<lparr> word = ''damn'', start = 0, endT = 7, confidence = 0.9 \<rparr>] 10 example_processor)) 0 11
       = 120"
proof -
  have h: "(0::real) \<le> 10" by simp
  note t = hit_span_within_chunk [OF example_processor_wf h,
      of "\<lambda>w. w = ''damn''" "[\<lparr> word = ''damn'', start = 0, endT = 7, confidence = 0.9 \<rparr>]"]
  have cs: "chunkStartPos_of example_processor 10 = 0"
    by (simp add: chunkStartPos_of_def example_processor_def constructed_def default_Config_def
        c_int_def signed_modulo_int_def)
  have out: "\<forall>i::int. 0 \<le> i \<and> i < 10 \<longrightarrow> 11 \<noteq> (0 + i) smod 12"
  proof (intro allI impI)
    fix i :: int assume i: "0 \<le> i \<and> i < 10"
    then have "(0 + i) smod 12 = (0 + i) mod 12" by (simp add: smod_nonneg)
    also have "\<dots> = i" using i by simp
    finally show "11 \<noteq> (0 + i) smod 12" using i by simp
  qed
  have b: "hit_startSample (config example_processor) 0 = 0"
          "hit_endSample (config example_processor) 0 7 = 10"
    by (simp_all add: hit_startSample_def hit_endSample_def example_processor_def constructed_def
        default_Config_def c_int_def)
  from t have "0 \<le> (0::int) \<and> 0 < channels (config example_processor) \<and> 0 \<le> (11::int)
        \<and> 11 < delayBufferSize example_processor
        \<and> (\<forall>i. 0 \<le> i \<and> i < sampleRate (config example_processor) * 5 \<longrightarrow>
               11 \<noteq> (chunkStartPos_of example_processor 10 + i) smod delayBufferSize example_processor)
      \<longrightarrow> at2 (delayBuffer (processTranscription (\<lambda>w. w = ''damn'')
            [\<lparr> word = ''damn'', start = 0, endT = 7, confidence = 0.9 \<rparr>] 10 example_processor)) 0 11
          = at2 (delayBuffer example_processor) 0 11"
    by blast
  then have "at2 (delayBuffer (processTranscription (\<lambda>w. w = ''damn'')
            [\<lparr> word = ''damn'', start = 0, endT = 7, confidence = 0.9 \<rparr>] 10 example_processor)) 0 11
          = at2 (delayBuffer example_processor) 0 11"
    using out by (simp add: cs) (simp add: example_processor_def constructed_def default_Config_def)
  then show ?thesis
    using example_processor_wf b
    by (simp add: at2_def) (simp add: example_processor_def)
qed

subsection \<open>What a patch writes\<close>

lemma censor_sample:
  fixes hs he :: real
  assumes wf: "delay_wf st" and cs: "0 \<le> cs"
  defines "s \<equiv> hit_startSample (config st) hs"
  defines "n \<equiv> hit_endSample (config st) hs he - hit_startSample (config st) hs"
  assumes ch: "0 \<le> ch" "ch < channels (config st)" and i: "0 \<le> i" "i < n"
  shows "at2 (reverse_patch (channels (config st)) (delayBufferSize st) cs s n (min 480 (n sdiv 4))
               (delayBuffer st)) ch ((cs + s + i) smod delayBufferSize st)
           = at2 (delayBuffer st) ch ((cs + s + (n - 1 - i)) smod delayBufferSize st) * 0.5
             * fade_ramp n (min 480 (n div 4)) i"
    and "at2 (reverse_patch2 (channels (config st)) (delayBufferSize st) cs s n (min 480 (n sdiv 4))
               (delayBuffer st)) ch ((cs + s + i) smod delayBufferSize st)
           = at2 (delayBuffer st) ch ((cs + s + (n - 1 - i)) smod delayBufferSize st) * 0.5
             * fade_ramp n (min 480 (n div 4)) i"
    and "at2 (mute_patch (channels (config st)) (delayBufferSize st) cs s (s + n)
               (delayBuffer st)) ch ((cs + s + i) smod delayBufferSize st) = 0"
proof -
  note d = delay_wf_buffer [OF wf]
  note a = delay_wf_span [OF wf cs]
  have n0: "0 \<le> n" using i by simp
  have fade: "n sdiv 4 = n div 4" using n0 by (simp add: sdiv_nonneg)
  have a1: "0 \<le> cs + s" unfolding s_def by (rule a(1))
  have a2: "n \<le> delayBufferSize st" unfolding n_def by (rule a(2))
  show "at2 (reverse_patch (channels (config st)) (delayBufferSize st) cs s n (min 480 (n sdiv 4))
               (delayBuffer st)) ch ((cs + s + i) smod delayBufferSize st)
           = at2 (delayBuffer st) ch ((cs + s + (n - 1 - i)) smod delayBufferSize st) * 0.5
             * fade_ramp n (min 480 (n div 4)) i"
    unfolding fade by (rule reverse_patch_sample [OF d(1) a1 a2 d(2) d(3) ch i])
  show "at2 (reverse_patch2 (channels (config st)) (delayBufferSize st) cs s n (min 480 (n sdiv 4))
               (delayBuffer st)) ch ((cs + s + i) smod delayBufferSize st)
           = at2 (delayBuffer st) ch ((cs + s + (n - 1 - i)) smod delayBufferSize st) * 0.5
             * fade_ramp n (min 480 (n div 4)) i"
    unfolding fade by (rule reverse_patch2_sample [OF d(1) a1 a2 d(2) d(3) ch i])
  have "at2 (mute_patch (channels (config st)) (delayBufferSize st) cs s (s + n)
               (delayBuffer st)) ch ((cs + (s + i)) smod delayBufferSize st) = 0"
    by (rule mute_patch_sample [OF d(1) a1 d(2) d(3) ch]) (use i in simp_all)
  then show "at2 (mute_patch (channels (config st)) (delayBufferSize st) cs s (s + n)
               (delayBuffer st)) ch ((cs + s + i) smod delayBufferSize st) = 0"
    by (simp add: add.assoc)
qed

text \<open>
  Claim C8. For a hit whose clamped span starts at frame \<open>s\<close> of the chunk and has \<open>n\<close>
  frames, with \<open>fadeSamples = min 480 (n / 4)\<close>: in Reverse mode, sample \<open>i\<close> of the span
  becomes, in every channel, the original sample \<open>n - 1 - i\<close> of the span times 0.5 times the
  linear fade (\<open>i / fadeSamples\<close> over the first \<open>fadeSamples\<close> frames,
  \<open>(n - i) / fadeSamples\<close> over the last); in Mute mode it becomes zero. This holds for the
  patch of a single-word hit and for the patch of a two-word hit.
\<close>

theorem patch_contents:
  assumes "delay_wf st" and "0 \<le> chunkStartPos"
  shows "let cfg = config st; L = delayBufferSize st; buf = delayBuffer st;
             s = hit_startSample cfg (start wordSeg);
             n = hit_endSample cfg (start wordSeg) (endT wordSeg) - s;
             n2 = hit_endSample cfg (start wordSeg) (endT nextWord) - s
         in (\<forall>ch i. 0 \<le> ch \<and> ch < channels cfg \<and> 0 \<le> i \<and> i < n \<longrightarrow>
               at2 (delayBuffer (censor_word chunkStartPos wordSeg st)) ch ((chunkStartPos + s + i) smod L)
                 = (case censorMode cfg of
                      Reverse \<Rightarrow> at2 buf ch ((chunkStartPos + s + (n - 1 - i)) smod L) * 0.5
                                  * fade_ramp n (min 480 (n div 4)) i
                    | Mute \<Rightarrow> 0))
          \<and> (\<forall>ch i. 0 \<le> ch \<and> ch < channels cfg \<and> 0 \<le> i \<and> i < n2 \<longrightarrow>
               at2 (delayBuffer (censor_pair chunkStartPos wordSeg nextWord st)) ch
                   ((chunkStartPos + s + i) smod L)
                 = (case censorMode cfg of
                      Reverse \<Rightarrow> at2 buf ch ((chunkStartPos + s + (n2 - 1 - i)) smod L) * 0.5
                                  * fade_ramp n2 (min 480 (n2 div 4)) i
                    | Mute \<Rightarrow> 0))"
proof -
  note c = censor_sample [OF assms]
  show ?thesis
    unfolding Let_def
  proof (intro conjI allI impI)
    fix ch i
    assume h: "0 \<le> ch \<and> ch < channels (config st) \<and> 0 \<le> i
       \<and> i < hit_endSample (config st) (start wordSeg) (endT wordSeg)
             - hit_startSample (config st) (start wordSeg)"
    then have ch: "0 \<le> ch" "ch < channels (config st)" and i: "0 \<le> i"
       "i < hit_endSample (config st) (start wordSeg) (endT wordSeg)
             - hit_startSample (config st) (start wordSeg)" by auto
    show "at2 (delayBuffer (censor_word chunkStartPos wordSeg st)) ch
            ((chunkStartPos + hit_startSample (config st) (start wordSeg) + i) smod delayBufferSize st)
          = (case censorMode (config st) of
               Reverse \<Rightarrow>
                 at2 (delayBuffer st) ch
                   ((chunkStartPos + hit_startSample (config st) (start wordSeg)
                      + (hit_endSample (config st) (start wordSeg) (endT wordSeg)
                           - hit_startSample (config st) (start wordSeg) - 1 - i))
                    smod delayBufferSize st) * 0.5
                 * fade_ramp (hit_endSample (config st) (start wordSeg) (endT wordSeg)
                               - hit_startSample (config st) (start wordSeg))
                     (min 480 ((hit_endSample (config st) (start wordSeg) (endT wordSeg)
                                 - hit_startSample (config st) (start wordSeg)) div 4)) i
             | Mute \<Rightarrow> 0)"
    proof (cases "censorMode (config st)")
      case Reverse
      then show ?thesis using c(1) [OF ch i] by (simp add: censor_word_def Let_def)
    next
      case Mute
      then show ?thesis using c(3) [OF ch i] by (simp add: censor_word_def Let_def)
    qed
  next
    fix ch i
    assume h: "0 \<le> ch \<and> ch < channels (config st) \<and> 0 \<le> i
       \<and> i < hit_endSample (config st) (start wordSeg) (endT nextWord)
             - hit_startSample (config st) (start wordSeg)"
    then have ch: "0 \<le> ch" "ch < channels (config st)" and i: "0 \<le> i"
       "i < hit_endSample (config st) (start wordSeg) (endT nextWord)
             - hit_startSample (config st) (start wordSeg)" by auto
    show "at2 (delayBuffer (censor_pair chunkStartPos wordSeg nextWord st)) ch
            ((chunkStartPos + hit_startSample (config st) (start wordSeg) + i) smod delayBufferSize st)
          = (case censorMode (config st) of
               Reverse \<Rightarrow>
                 at2 (delayBuffer st) ch
                   ((chunkStartPos + hit_startSample (config st) (start wordSeg)
                      + (hit_endSample (config st) (start wordSeg) (endT nextWord)
                           - hit_startSample (config st) (start wordSeg) - 1 - i))
                    smod delayBufferSize st) * 0.5
                 * fade_ramp (hit_endSample (config st) (start wordSeg) (endT nextWord)
                               - hit_startSample (config st) (start wordSeg))
                     (min 480 ((hit_endSample (config st) (start wordSeg) (endT nextWord)
                                 - hit_startSample (config st) (start wordSeg)) div 4)) i
             | Mute \<Rightarrow> 0)"
    proof (cases "censorMode (config st)")
      case Reverse
      then show ?thesis using c(2) [OF ch i] by (simp add: censor_pair_def Let_def)
    next
      case Mute
      then show ?thesis using c(3) [OF ch i] by (simp add: censor_pair_def Let_def)
    qed
  qed
qed

theorem patch_contents_witness:
  "delay_wf example_processor \<and> (0::int) \<le> 0
   \<and> at2 (delayBuffer (censor_word 0 \<lparr> word = ''damn'', start = 1.4, endT = 2.9, confidence = 0.9 \<rparr>
             example_processor)) 0 3 = 25
   \<and> at2 (delayBuffer (censor_pair 0 \<lparr> word = ''damn'', start = 1.4, endT = 2.9, confidence = 0.9 \<rparr>
             \<lparr> word = ''it'', start = 2.9, endT = 3.4, confidence = 0.9 \<rparr> example_processor)) 0 2 = 0"
proof -
  let ?w = "\<lparr> word = ''damn'', start = 1.4, endT = 2.9, confidence = 0.9 \<rparr>"
  let ?w2 = "\<lparr> word = ''it'', start = 2.9, endT = 3.4, confidence = 0.9 \<rparr>"
  have h: "(0::int) \<le> 0" by simp
  note t = patch_contents [OF example_processor_wf h, of ?w ?w2, unfolded Let_def]
  have cfg: "config example_processor = default_Config\<lparr> sampleRate := 2, channels := 1 \<rparr>"
    "delayBufferSize example_processor = 12"
    "delayBuffer example_processor = [[10, 20, 30, 40, 50, 60, 70, 80, 90, 100, 110, 120]]"
    by (simp_all add: example_processor_def constructed_def)
  from t have "0 \<le> (0::int) \<and> 0 < channels (config example_processor) \<and> 0 \<le> (1::int)
       \<and> 1 < hit_endSample (config example_processor) (start ?w) (endT ?w)
             - hit_startSample (config example_processor) (start ?w)
     \<longrightarrow> at2 (delayBuffer (censor_word 0 ?w example_processor)) 0
            ((0 + hit_startSample (config example_processor) (start ?w) + 1)
               smod delayBufferSize example_processor)
          = (case censorMode (config example_processor) of
               Reverse \<Rightarrow>
                 at2 (delayBuffer example_processor) 0
                   ((0 + hit_startSample (config example_processor) (start ?w)
                      + (hit_endSample (config example_processor) (start ?w) (endT ?w)
                           - hit_startSample (config example_processor) (start ?w) - 1 - 1))
                    smod delayBufferSize example_processor) * 0.5
                 * fade_ramp (hit_endSample (config example_processor) (start ?w) (endT ?w)
                               - hit_startSample (config example_processor) (start ?w))
                     (min 480 ((hit_endSample (config example_processor) (start ?w) (endT ?w)
                                 - hit_startSample (config example_processor) (start ?w)) div 4)) 1
             | Mute \<Rightarrow> 0)"
    by blast
  then have a: "at2 (delayBuffer (censor_word 0 ?w example_processor)) 0 3 = 25"
    by (simp add: cfg default_Config_def hit_startSample_def hit_endSample_def c_int_def
          at2_def fade_ramp_def signed_modulo_int_def)
  from t have "0 \<le> (0::int) \<and> 0 < channels (config example_processor) \<and> 0 \<le> (0::int)
       \<and> 0 < hit_endSample (config example_processor) (start ?w) (endT ?w2)
             - hit_startSample (config example_processor) (start ?w)
     \<longrightarrow> at2 (delayBuffer (censor_pair 0 ?w ?w2 example_processor)) 0
            ((0 + hit_startSample (config example_processor) (start ?w) + 0)
               smod delayBufferSize example_processor)
          = (case censorMode (config example_processor) of
               Reverse \<Rightarrow>
                 at2 (delayBuffer example_processor) 0
                   ((0 + hit_startSample (config example_processor) (start ?w)
                      + (hit_endSample (config example_processor) (start ?w) (endT ?w2)
                           - hit_startSample (config example_processor) (start ?w) - 1 - 0))
                    smod delayBufferSize example_processor) * 0.5
                 * fade_ramp (hit_endSample (config example_processor) (start ?w) (endT ?w2)
                               - hit_startSample (config example_processor) (start ?w))
                     (min 480 ((hit_endSample (config example_processor) (start ?w) (endT ?w2)
                                 - hit_startSample (config example_processor) (start ?w)) div 4)) 0
             | Mute \<Rightarrow> 0)"
    by blast
  then have b: "at2 (delayBuffer (censor_pair 0 ?w ?w2 example_processor)) 0 2 = 0"
    by (simp add: cfg default_Config_def hit_startSample_def hit_endSample_def c_int_def
          at2_def fade_ramp_def signed_modulo_int_def)
  show ?thesis using example_processor_wf a b by simp
qed

subsection \<open>Which words the loop hits\<close>

lemma censor_counts [simp]:
  "detectedWords (censor_word cs w st) = detectedWords st @ [word w]"
  "profanityCount (censor_word cs w st) = profanityCount st + 1"
  "detectedWords (censor_pair cs w w2 st) = detectedWords st @ [word w @ '' '' @ word w2]"
  "profanityCount (censor_pair cs w w2 st) = profanityCount st + 1"
  by (simp_all add: censor_word_def censor_pair_def Let_def)

lemma scan_indices_ge: "i \<in> set (scan_indices cp ws idx) \<Longrightarrow> idx \<le> i \<and> i < length ws"
proof (induction cp ws idx rule: scan_indices.induct)
  case (1 cp ws idx)
  show ?case
  proof (cases "idx < length ws")
    case True
    then show ?thesis
      using 1 by (subst (asm) (3) scan_indices.simps) (auto split: if_splits)
  next
    case False
    then show ?thesis using 1(3) by (subst (asm) scan_indices.simps) simp
  qed
qed

lemma scan_hits_single:
  "SingleHit i \<in> set (scan_hits cp ws idx)
     \<longleftrightarrow> i \<in> set (scan_indices cp ws idx) \<and> cp (normalizeText (word (ws ! i)))"
proof (induction cp ws idx rule: scan_hits.induct)
  case (1 cp ws idx)
  show ?case
  proof (cases "idx < length ws")
    case True
    then show ?thesis
      using 1 scan_indices_ge [of i cp ws "idx + 1"] scan_indices_ge [of i cp ws "idx + 2"]
      by (subst scan_hits.simps, subst scan_indices.simps) auto
  next
    case False
    then show ?thesis by (subst scan_hits.simps, subst scan_indices.simps) simp
  qed
qed

lemma scan_hits_pair:
  "PairHit i \<in> set (scan_hits cp ws idx)
     \<longleftrightarrow> i \<in> set (scan_indices cp ws idx) \<and> pair_match cp ws i"
proof (induction cp ws idx rule: scan_hits.induct)
  case (1 cp ws idx)
  show ?case
  proof (cases "idx < length ws")
    case True
    then show ?thesis
      using 1 scan_indices_ge [of i cp ws "idx + 1"] scan_indices_ge [of i cp ws "idx + 2"]
      by (subst scan_hits.simps, subst scan_indices.simps) auto
  next
    case False
    then show ?thesis by (subst scan_hits.simps, subst scan_indices.simps) simp
  qed
qed

lemma scan_indices_head: "j < length ws \<Longrightarrow> j \<in> set (scan_indices cp ws j)"
  by (subst scan_indices.simps) simp

lemma scan_indices_next:
  "i \<in> set (scan_indices cp ws idx) \<Longrightarrow>
     (if pair_match cp ws i
      then Suc i \<notin> set (scan_indices cp ws idx)
           \<and> (Suc (Suc i) < length ws \<longrightarrow> Suc (Suc i) \<in> set (scan_indices cp ws idx))
      else Suc i < length ws \<longrightarrow> Suc i \<in> set (scan_indices cp ws idx))"
proof (induction cp ws idx rule: scan_indices.induct)
  case (1 cp ws idx)
  have lt: "idx < length ws" using scan_indices_ge [OF 1(3)] by simp
  let ?rest = "if pair_match cp ws idx then scan_indices cp ws (idx + 2)
               else scan_indices cp ws (idx + 1)"
  have unf: "scan_indices cp ws idx = idx # ?rest"
    using lt by (subst scan_indices.simps) simp
  show ?case
  proof (cases "i = idx")
    case True
    show ?thesis
    proof (cases "pair_match cp ws idx")
      case pm: True
      have "Suc idx \<notin> set (scan_indices cp ws (idx + 2))"
        using scan_indices_ge [of "Suc idx" cp ws "idx + 2"] by auto
      moreover have "Suc (Suc idx) < length ws \<longrightarrow> Suc (Suc idx) \<in> set (scan_indices cp ws (idx + 2))"
        using scan_indices_head [of "Suc (Suc idx)" ws cp] by simp
      ultimately show ?thesis using True pm unf by simp
    next
      case pm: False
      have "Suc idx < length ws \<longrightarrow> Suc idx \<in> set (scan_indices cp ws (idx + 1))"
        using scan_indices_head [of "Suc idx" ws cp] by simp
      then show ?thesis using True pm unf by simp
    qed
  next
    case False
    then have inrest: "i \<in> set ?rest" using 1(3) unf by simp
    show ?thesis
    proof (cases "pair_match cp ws idx")
      case pm: True
      then have i2: "i \<in> set (scan_indices cp ws (idx + 2))" using inrest by simp
      have ge: "idx + 2 \<le> i" using scan_indices_ge [OF i2] by simp
      note ih = 1(1) [OF lt pm i2]
      show ?thesis using ih ge pm unf by (auto split: if_splits)
    next
      case pm: False
      then have i1: "i \<in> set (scan_indices cp ws (idx + 1))" using inrest by simp
      have ge: "idx + 1 \<le> i" using scan_indices_ge [OF i1] by simp
      note ih = 1(2) [OF lt pm i1]
      show ?thesis using ih ge pm unf by (auto split: if_splits)
    qed
  qed
qed

subsection \<open>The underrun flag and the double hit\<close>








lemma processTranscription_hits:
  assumes "\<not> bufferUnderrun st"
  shows "strip_transcript (processTranscription cp ws ct st)
           = strip_transcript (foldl (apply_hit (chunkStartPos_of st ct) ws)
               (st\<lparr> detectedWords := [] \<rparr>) (scan_hits cp ws 0))"
proof -
  have cs: "chunkStartPos_of (st\<lparr> detectedWords := [], fullTranscript := [] \<rparr>) ct = chunkStartPos_of st ct"
    by (simp add: chunkStartPos_of_def)
  have "strip_transcript (foldl (apply_hit (chunkStartPos_of st ct) ws)
            (st\<lparr> detectedWords := [], fullTranscript := [] \<rparr>) (scan_hits cp ws 0))
      = strip_transcript (foldl (apply_hit (chunkStartPos_of st ct) ws)
            (st\<lparr> detectedWords := [] \<rparr>) (scan_hits cp ws 0))"
    by simp
  then show ?thesis
    using assms by (simp add: processTranscription_def word_loop_hits cs)
qed

text \<open>
  Claim C2. With \<open>damn\<close> and \<open>damnit\<close> in the lexicon, the words \<open>damn\<close>, \<open>it\<close> give a
  single-word hit on word 0 and then a two-word hit on words 0 and 1: the first word is
  counted twice, and the second Reverse patch turns the samples of the first around again.
\<close>

theorem first_word_censored_twice:
  "let containsProfanity = (\<lambda>w. w = ''damn'' \<or> w = ''damnit'');
       ws = [\<lparr> word = ''damn'', start = 1.4, endT = 2.9, confidence = 0.9 \<rparr>,
             \<lparr> word = ''it'', start = 2.9, endT = 3.4, confidence = 0.9 \<rparr>];
       st = processTranscription containsProfanity ws 10 example_processor
   in scan_hits containsProfanity ws 0 = [SingleHit 0, PairHit 0]
      \<and> detectedWords st = [''damn'', ''damn it'']
      \<and> profanityCount st = 2
      \<and> delayBuffer st = [[10, 20, 0, 7.5, 10, 12.5, 0, 80, 90, 100, 110, 120]]"
  by code_simp

subsection \<open>The playback gate, frame by frame\<close>




lemma playback_gate_fields:
  "config (snd (playback_gate b st)) = config st"
  "delayBufferSize (snd (playback_gate b st)) = delayBufferSize st"
  "delayBuffer (snd (playback_gate b st)) = delayBuffer st"
  by (simp_all add: playback_gate_def Let_def)

text \<open>The effect of one frame on the gate, the cursors and the ring size.\<close>

lemma delay_frame_view:
  "gate_view (fst (delay_frame inputBuffer i (st, outputBuffer)))
     = (config st, delayBufferSize st,
        (delayWritePos st + 1) smod delayBufferSize st,
        (if canPlay_of st then (delayReadPos st + 1) smod delayBufferSize st else delayReadPos st),
        playbackStarted st \<or> canPlay_of st,
        (if playbackStarted st then \<not> canPlay_of st else wasPaused st))"
  by (simp add: delay_frame_def Let_def split_beta gate_view_def canPlay_of_def currentGap_def
        playback_gate_def)

lemma canPlay_of_cases:
  "canPlay_of st \<longleftrightarrow>
     (if \<not> playbackStarted st
      then real_of_int (currentGap st) / real_of_int (sampleRate (config st))
             \<ge> initialDelaySeconds (config st)
      else if wasPaused st
      then real_of_int (currentGap st) / real_of_int (sampleRate (config st))
             \<ge> initialDelaySeconds (config st)
      else \<not> real_of_int (currentGap st) / real_of_int (sampleRate (config st))
             < initialDelaySeconds (config st) - 2)"
  by (auto simp: canPlay_of_def playback_gate_def Let_def)




lemma out_loop:
  fixes v :: "int \<Rightarrow> 'a" and b n :: int and t0 :: "'a list"
  assumes "0 \<le> b"
  defines "T \<equiv> for_loop 0 n (\<lambda>k t. t[nat (b + k) := v k]) t0"
  shows "length T = length t0"
    and "0 \<le> k \<Longrightarrow> k < n \<Longrightarrow> nat (b + k) < length t0 \<Longrightarrow> T ! nat (b + k) = v k"
proof -
  let ?P = "\<lambda>j t. length t = length t0 \<and>
     (\<forall>k. 0 \<le> k \<and> k < j \<and> nat (b + k) < length t0 \<longrightarrow> t ! nat (b + k) = v k)"
  have main: "?P n T" if le: "0 \<le> n"
    unfolding T_def
  proof (rule for_loop_rule [where P = ?P])
    show "?P 0 t0" by auto
  next
    fix j t assume j: "0 \<le> j" "j < n" and t: "?P j t"
    have "t[nat (b + j) := v j] ! nat (b + k) = v k"
      if k: "0 \<le> k \<and> k < j + 1 \<and> nat (b + k) < length t0" for k
    proof (cases "k = j")
      case True
      then show ?thesis using t k by simp
    next
      case False
      then have "k < j" using k by simp
      moreover have "nat (b + k) \<noteq> nat (b + j)" using False k j assms(1) by arith
      ultimately show ?thesis using t k by simp
    qed
    then show "?P (j + 1) (t[nat (b + j) := v j])" using t by simp
  qed (fact le)
  have triv: "T = t0" if "\<not> 0 \<le> n" using that by (simp add: T_def for_loop_done)
  show "length T = length t0" using main triv by (cases "0 \<le> n") auto
  show "0 \<le> k \<Longrightarrow> k < n \<Longrightarrow> nat (b + k) < length t0 \<Longrightarrow> T ! nat (b + k) = v k"
    using main by (cases "0 \<le> n") auto
qed

lemma playback_gate_delayBuffer_irrelevant:
  "fst (playback_gate b (st\<lparr> delayBuffer := x \<rparr>)) = fst (playback_gate b st)"
  by (simp add: playback_gate_def Let_def)

lemma delay_frame_delayBuffer:
  "delayBuffer (fst (delay_frame inputBuffer i (st, outputBuffer)))
     = for_loop 0 (channels (config st))
         (\<lambda>ch buf. put2 buf ch (delayWritePos st) (inputBuffer ! nat (i * channels (config st) + ch)))
         (delayBuffer st)"
  by (simp add: delay_frame_def Let_def split_beta playback_gate_fields)

lemma delay_frame_output:
  assumes "0 \<le> i" and "0 \<le> channels (config st)" and "0 \<le> ch" and "ch < channels (config st)"
    and "nat (i * channels (config st) + ch) < length outputBuffer"
  shows "snd (delay_frame inputBuffer i (st, outputBuffer)) ! nat (i * channels (config st) + ch)
           = (if canPlay_of st
              then at2 (delayBuffer (fst (delay_frame inputBuffer i (st, outputBuffer)))) ch (delayReadPos st)
              else 0)"
proof -
  let ?C = "channels (config st)"
  let ?buf = "for_loop 0 ?C
         (\<lambda>ch buf. put2 buf ch (delayWritePos st) (inputBuffer ! nat (i * ?C + ch)))
         (delayBuffer st)"
  let ?v = "\<lambda>ch. if canPlay_of st then at2 ?buf ch (delayReadPos st) else (0::real)"
  have b: "0 \<le> i * ?C" using assms by simp
  have cp: "fst (playback_gate
              (real_of_int (currentGap (st\<lparr> delayBuffer := ?buf \<rparr>)) / real_of_int (sampleRate (config st)))
              (st\<lparr> delayBuffer := ?buf \<rparr>)) = canPlay_of st"
    by (simp add: playback_gate_delayBuffer_irrelevant canPlay_of_def currentGap_def)
  have "snd (delay_frame inputBuffer i (st, outputBuffer))
          = for_loop 0 ?C (\<lambda>k t. t[nat (i * ?C + k) := ?v k]) outputBuffer"
    by (simp add: delay_frame_def Let_def split_beta playback_gate_fields cp cong: if_cong)
  then show ?thesis
    using out_loop(2) [OF b assms(3) assms(4) assms(5), of ?v]
    by (simp add: delay_frame_delayBuffer)
qed

lemma currentGap_ring:
  assumes "0 \<le> delayWritePos st" and "delayWritePos st < delayBufferSize st"
    and "0 \<le> delayReadPos st" and "delayReadPos st < delayBufferSize st"
  shows "currentGap st = (delayWritePos st - delayReadPos st) mod delayBufferSize st"
proof -
  have L: "0 < delayBufferSize st" using assms by linarith
  have "0 \<le> delayWritePos st - delayReadPos st + delayBufferSize st" using assms by linarith
  then show ?thesis using L by (simp add: currentGap_def smod_nonneg)
qed

text \<open>
  Claim C5. The gate has the three states Warming, Playing and Paused and is driven, frame
  by frame, by the fill \<open>W - R\<close> of the delay line, the distance on the ring from the read
  cursor \<open>R\<close> to the write cursor \<open>W\<close>: from Warming it goes to Playing exactly when
  \<open>fill \<ge> initialDelay * F\<close>, from Playing to Paused exactly when
  \<open>fill < (initialDelay - 2) * F\<close>, from Paused to Playing exactly when
  \<open>fill \<ge> initialDelay * F\<close>. In a frame that the gate leaves in Warming or Paused every
  channel of the output frame is zero and the read cursor stays; in a frame that it leaves in
  Playing the output is the delay line at the read cursor and the read cursor advances.
\<close>

theorem playback_gate_machine:
  assumes "0 < sampleRate (config st)" and "wasPaused st \<longrightarrow> playbackStarted st"
    and "0 \<le> delayWritePos st" and "delayWritePos st < delayBufferSize st"
    and "0 \<le> delayReadPos st" and "delayReadPos st < delayBufferSize st"
    and "0 \<le> i" and "nat ((i + 1) * channels (config st)) \<le> length outputBuffer"
  shows "let W = delayWritePos st;
             R = delayReadPos st;
             L = delayBufferSize st;
             fill = real_of_int ((W - R) mod L);
             F = real_of_int (sampleRate (config st));
             D = initialDelaySeconds (config st);
             st' = fst (delay_frame inputBuffer i (st, outputBuffer));
             out' = snd (delay_frame inputBuffer i (st, outputBuffer))
         in (gate st = Warming \<longrightarrow> gate st' = (if D * F \<le> fill then Playing else Warming))
          \<and> (gate st = Playing \<longrightarrow> gate st' = (if fill < (D - 2) * F then Paused else Playing))
          \<and> (gate st = Paused \<longrightarrow> gate st' = (if D * F \<le> fill then Playing else Paused))
          \<and> delayWritePos st' = (W + 1) mod L
          \<and> (gate st' \<noteq> Playing \<longrightarrow>
                delayReadPos st' = R
                \<and> (\<forall>ch. 0 \<le> ch \<and> ch < channels (config st) \<longrightarrow>
                      out' ! nat (i * channels (config st) + ch) = 0))
          \<and> (gate st' = Playing \<longrightarrow>
                delayReadPos st' = (R + 1) mod L
                \<and> (\<forall>ch. 0 \<le> ch \<and> ch < channels (config st) \<longrightarrow>
                      out' ! nat (i * channels (config st) + ch)
                        = at2 (delayBuffer st') ch R))"
proof -
  let ?W = "delayWritePos st" and ?R = "delayReadPos st" and ?L = "delayBufferSize st"
  let ?F = "real_of_int (sampleRate (config st))"
  let ?D = "initialDelaySeconds (config st)"
  let ?fill = "real_of_int ((?W - ?R) mod ?L)"
  let ?st' = "fst (delay_frame inputBuffer i (st, outputBuffer))"
  let ?out' = "snd (delay_frame inputBuffer i (st, outputBuffer))"
  let ?C = "channels (config st)"
  have F: "0 < ?F" using assms(1) by simp
  have L: "0 < ?L" using assms(3,4) by linarith
  have gap: "real_of_int (currentGap st) = ?fill"
    using currentGap_ring [OF assms(3-6)] by simp
  note v = delay_frame_view [of inputBuffer i st outputBuffer]
  have st: "playbackStarted ?st' = (playbackStarted st \<or> canPlay_of st)"
    and pa: "wasPaused ?st' = (if playbackStarted st then \<not> canPlay_of st else wasPaused st)"
    and rd: "delayReadPos ?st' = (if canPlay_of st then (?R + 1) mod ?L else ?R)"
    and wr: "delayWritePos ?st' = (?W + 1) mod ?L"
    using v L assms(3,5) by (simp_all add: gate_view_def smod_nonneg)
  have d1: "(?D \<le> ?fill / ?F) = (?D * ?F \<le> ?fill)" using F by (simp add: pos_le_divide_eq)
  have d2: "(?fill / ?F < ?D - 2) = (?fill < (?D - 2) * ?F)" using F by (simp add: pos_divide_less_eq)
  have cp: "canPlay_of st \<longleftrightarrow>
     (if \<not> playbackStarted st then ?D * ?F \<le> ?fill
      else if wasPaused st then ?D * ?F \<le> ?fill
      else \<not> ?fill < (?D - 2) * ?F)"
    unfolding canPlay_of_cases gap d1 d2 by (rule refl)
  have g1: "gate st = Warming \<longrightarrow> gate ?st' = (if ?D * ?F \<le> ?fill then Playing else Warming)"
    using assms(2) st pa by (auto simp: gate_def cp split: if_splits)
  have g2: "gate st = Playing \<longrightarrow> gate ?st' = (if ?fill < (?D - 2) * ?F then Paused else Playing)"
    using st pa by (auto simp: gate_def cp split: if_splits)
  have g3: "gate st = Paused \<longrightarrow> gate ?st' = (if ?D * ?F \<le> ?fill then Playing else Paused)"
    using st pa by (auto simp: gate_def cp split: if_splits)
  have pl: "gate ?st' = Playing \<longleftrightarrow> canPlay_of st"
    using assms(2) st pa by (auto simp: gate_def split: if_splits)
  have out: "?out' ! nat (i * ?C + ch)
        = (if canPlay_of st then at2 (delayBuffer ?st') ch ?R else 0)"
    if ch: "0 \<le> ch \<and> ch < ?C" for ch
  proof -
    have C0: "0 \<le> ?C" using ch by simp
    have "i * ?C + ch < (i + 1) * ?C" using ch by (simp add: algebra_simps)
    then have "nat (i * ?C + ch) < nat ((i + 1) * ?C)"
      using assms(7) ch by (simp add: nat_less_iff)
    then have "nat (i * ?C + ch) < length outputBuffer" using assms(8) by linarith
    then show ?thesis using delay_frame_output [OF assms(7) C0] ch by blast
  qed
  have q: "gate ?st' \<noteq> Playing \<longrightarrow>
                delayReadPos ?st' = ?R
                \<and> (\<forall>ch. 0 \<le> ch \<and> ch < ?C \<longrightarrow> ?out' ! nat (i * ?C + ch) = 0)"
    using pl rd out by simp
  have p: "gate ?st' = Playing \<longrightarrow>
                delayReadPos ?st' = (?R + 1) mod ?L
                \<and> (\<forall>ch. 0 \<le> ch \<and> ch < ?C \<longrightarrow>
                      ?out' ! nat (i * ?C + ch) = at2 (delayBuffer ?st') ch ?R)"
    using pl rd out by simp
  show ?thesis unfolding Let_def using g1 g2 g3 wr q p by blast
qed


theorem playback_gate_machine_witness:
  "gate warming_processor = Warming
   \<and> (delayWritePos warming_processor - delayReadPos warming_processor)
        mod delayBufferSize warming_processor = 19
   \<and> gate (fst (delay_frame [20] 0 (warming_processor, [9]))) = Warming
   \<and> delayWritePos (fst (delay_frame [20] 0 (warming_processor, [9]))) = 20
   \<and> delayReadPos (fst (delay_frame [20] 0 (warming_processor, [9]))) = 0
   \<and> snd (delay_frame [20] 0 (warming_processor, [9])) ! 0 = 0
   \<and> gate (fst (delay_frame [21] 0 (fst (delay_frame [20] 0 (warming_processor, [9])), [9])))
        = Playing
   \<and> delayReadPos (fst (delay_frame [21] 0 (fst (delay_frame [20] 0 (warming_processor, [9])), [9])))
        = 1
   \<and> snd (delay_frame [21] 0 (fst (delay_frame [20] 0 (warming_processor, [9])), [9])) ! 0 = 1"
proof -
  let ?cfg = "default_Config\<lparr> sampleRate := 2, channels := 1 \<rparr>"
  let ?s19 = warming_processor
  let ?s20 = "fst (delay_frame [20] 0 (warming_processor, [9]))"
  let ?s21 = "fst (delay_frame [21] 0 (?s20, [9]))"
  have v19: "gate_view ?s19 = (?cfg, 40, 19, 0, False, False)" by code_simp
  have v20: "gate_view ?s20 = (?cfg, 40, 20, 0, False, False)" by code_simp
  have first_in: "at2 (delayBuffer ?s21) 0 0 = 1" by code_simp
  have c19: "config ?s19 = ?cfg" "delayBufferSize ?s19 = 40" "delayWritePos ?s19 = 19"
    "delayReadPos ?s19 = 0" "\<not> playbackStarted ?s19" "\<not> wasPaused ?s19"
    using v19 by (simp_all add: gate_view_def)
  have c20: "config ?s20 = ?cfg" "delayBufferSize ?s20 = 40" "delayWritePos ?s20 = 20"
    "delayReadPos ?s20 = 0" "\<not> playbackStarted ?s20" "\<not> wasPaused ?s20"
    using v20 by (simp_all add: gate_view_def)
  have h19: "0 < sampleRate (config ?s19)" "wasPaused ?s19 \<longrightarrow> playbackStarted ?s19"
    "0 \<le> delayWritePos ?s19" "delayWritePos ?s19 < delayBufferSize ?s19"
    "0 \<le> delayReadPos ?s19" "delayReadPos ?s19 < delayBufferSize ?s19"
    "(0::int) \<le> 0" "nat ((0 + 1) * channels (config ?s19)) \<le> length [9::real]"
    by (simp_all add: c19 default_Config_def)
  have h20: "0 < sampleRate (config ?s20)" "wasPaused ?s20 \<longrightarrow> playbackStarted ?s20"
    "0 \<le> delayWritePos ?s20" "delayWritePos ?s20 < delayBufferSize ?s20"
    "0 \<le> delayReadPos ?s20" "delayReadPos ?s20 < delayBufferSize ?s20"
    "(0::int) \<le> 0" "nat ((0 + 1) * channels (config ?s20)) \<le> length [9::real]"
    by (simp_all add: c20 default_Config_def)
  have g19: "gate ?s19 = Warming" by (simp add: gate_def c19)
  have g20: "gate ?s20 = Warming" by (simp add: gate_def c20)
  have f19: "(delayWritePos ?s19 - delayReadPos ?s19) mod delayBufferSize ?s19 = 19"
    by (simp add: c19)
  note t19 = playback_gate_machine [OF h19, of "[20]", unfolded Let_def]
  note t20 = playback_gate_machine [OF h20, of "[21]", unfolded Let_def]
  have a: "gate ?s20 = Warming" "delayWritePos ?s20 = 20"
    using t19 g19 by (simp_all add: c19 default_Config_def)
  have "delayReadPos ?s20 = delayReadPos ?s19
       \<and> (\<forall>ch. 0 \<le> ch \<and> ch < channels (config ?s19) \<longrightarrow>
             snd (delay_frame [20] 0 (?s19, [9])) ! nat (0 * channels (config ?s19) + ch) = 0)"
    using t19 a(1) by simp
  then have "delayReadPos ?s20 = delayReadPos ?s19
       \<and> ((0::int) \<le> 0 \<and> 0 < channels (config ?s19) \<longrightarrow>
             snd (delay_frame [20] 0 (?s19, [9])) ! nat (0 * channels (config ?s19) + 0) = 0)"
    by blast
  then have b: "delayReadPos ?s20 = 0" "snd (delay_frame [20] 0 (?s19, [9])) ! 0 = 0"
    by (simp_all add: c19 default_Config_def)
  have p: "gate ?s21 = Playing"
    using t20 g20 by (simp add: c20 default_Config_def)
  then have "delayReadPos ?s21 = (delayReadPos ?s20 + 1) mod delayBufferSize ?s20
       \<and> (\<forall>ch. 0 \<le> ch \<and> ch < channels (config ?s20) \<longrightarrow>
             snd (delay_frame [21] 0 (?s20, [9])) ! nat (0 * channels (config ?s20) + ch)
               = at2 (delayBuffer ?s21) ch (delayReadPos ?s20))"
    using t20 by simp
  then have "delayReadPos ?s21 = (delayReadPos ?s20 + 1) mod delayBufferSize ?s20
       \<and> ((0::int) \<le> 0 \<and> 0 < channels (config ?s20) \<longrightarrow>
             snd (delay_frame [21] 0 (?s20, [9])) ! nat (0 * channels (config ?s20) + 0)
               = at2 (delayBuffer ?s21) 0 (delayReadPos ?s20))"
    by blast
  then have d: "delayReadPos ?s21 = 1" "snd (delay_frame [21] 0 (?s20, [9])) ! 0 = 1"
    by (simp_all add: c20 default_Config_def first_in)
  show ?thesis using g19 f19 a b p d by simp
qed

subsection \<open>The fill over calls and runs\<close>

















subsection \<open>The underrun threshold over a run\<close>








subsection \<open>Word timings\<close>

lemma append_loop:
  fixes f :: "int \<Rightarrow> 'a" and n :: int
  assumes "0 \<le> n"
  shows "for_loop 0 n (\<lambda>k ws. ws @ [f k]) ws0 = ws0 @ map (\<lambda>k. f (int k)) [0..<nat n]"
proof (rule for_loop_rule [where P = "\<lambda>j ws. ws = ws0 @ map (\<lambda>k. f (int k)) [0..<nat j]"])
  show "ws0 = ws0 @ map (\<lambda>k. f (int k)) [0..<nat 0]" by simp
next
  fix j :: int and t :: "'a list"
  assume j: "0 \<le> j" "j < n" and t: "t = ws0 @ map (\<lambda>k. f (int k)) [0..<nat j]"
  have "nat (j + 1) = Suc (nat j)" using j by simp
  then show "t @ [f j] = ws0 @ map (\<lambda>k. f (int k)) [0..<nat (j + 1)]"
    using t j by simp
qed (fact assms)

lemma distributeWords_eq:
  "distributeWords segmentStart segmentEnd segmentWords transcribedWords
     = transcribedWords @ map (word_timing segmentStart segmentEnd segmentWords) [0..<length segmentWords]"
proof (cases "segmentWords = []")
  case True
  then show ?thesis by (simp add: distributeWords_def)
next
  case False
  let ?f = "\<lambda>k. \<lparr> word = segmentWords ! nat k,
        start = max 0 (min 5 (real_of_int segmentStart * 0.01 +
                  real_of_int k * ((real_of_int segmentEnd * 0.01 - real_of_int segmentStart * 0.01)
                     / real (length segmentWords)))),
        endT = max (max 0 (min 5 (real_of_int segmentStart * 0.01 +
                  real_of_int k * ((real_of_int segmentEnd * 0.01 - real_of_int segmentStart * 0.01)
                     / real (length segmentWords)))) + 0.05)
                 (min 5 (real_of_int segmentStart * 0.01 +
                  real_of_int k * ((real_of_int segmentEnd * 0.01 - real_of_int segmentStart * 0.01)
                     / real (length segmentWords))
                  + (real_of_int segmentEnd * 0.01 - real_of_int segmentStart * 0.01)
                     / real (length segmentWords))),
        confidence = 0.9 \<rparr>"
  have "distributeWords segmentStart segmentEnd segmentWords transcribedWords
          = for_loop 0 (int (length segmentWords)) (\<lambda>k ws. ws @ [?f k]) transcribedWords"
    using False unfolding distributeWords_def Let_def by simp
  also have "\<dots> = transcribedWords @ map (\<lambda>k. ?f (int k)) [0..<nat (int (length segmentWords))]"
    by (rule append_loop) simp
  also have "map (\<lambda>k. ?f (int k)) [0..<nat (int (length segmentWords))]
              = map (word_timing segmentStart segmentEnd segmentWords) [0..<length segmentWords]"
    by (simp add: word_timing_def Let_def)
  finally show ?thesis .
qed

text \<open>
  Claim C4, as the code has it. The cleaned words of a segment are spread uniformly over
  \<open>[t0, t1]\<close> with \<open>wordDuration = (t1 - t0) / wordCount\<close>; after clamping, every word
  has its start within \<open>[0, 5]\<close> and \<open>end \<ge> start + 0.05\<close>. The end is at most 5.05, and
  it is within \<open>[0, 5]\<close> whenever the start is at most 4.95: the minimum duration is applied
  after the clamp and wins over it.
\<close>

theorem word_timings:
  "let n = length segmentWords;
       t0 = real_of_int segmentStart / 100;
       t1 = real_of_int segmentEnd / 100;
       wordDuration = (t1 - t0) / real n;
       ws = drop (length transcribedWords)
              (distributeWords segmentStart segmentEnd segmentWords transcribedWords)
   in take (length transcribedWords)
        (distributeWords segmentStart segmentEnd segmentWords transcribedWords) = transcribedWords
    \<and> length ws = n
    \<and> (\<forall>k < n.
          word (ws ! k) = segmentWords ! k
          \<and> start (ws ! k) = max 0 (min 5 (t0 + real k * wordDuration))
          \<and> endT (ws ! k) = max (start (ws ! k) + 0.05) (min 5 (t0 + real (k + 1) * wordDuration))
          \<and> 0 \<le> start (ws ! k) \<and> start (ws ! k) \<le> 5
          \<and> start (ws ! k) + 0.05 \<le> endT (ws ! k)
          \<and> endT (ws ! k) \<le> 5.05
          \<and> (start (ws ! k) \<le> 4.95 \<longrightarrow> 0 \<le> endT (ws ! k) \<and> endT (ws ! k) \<le> 5))"
proof -
  let ?d = "distributeWords segmentStart segmentEnd segmentWords transcribedWords"
  let ?ws = "drop (length transcribedWords) ?d"
  let ?n = "length segmentWords"
  let ?t0 = "real_of_int segmentStart / 100"
  let ?wd = "(real_of_int segmentEnd / 100 - ?t0) / real ?n"
  note e = distributeWords_eq [of segmentStart segmentEnd segmentWords transcribedWords]
  have tk: "take (length transcribedWords) ?d = transcribedWords" by (simp add: e)
  have ws: "?ws = map (word_timing segmentStart segmentEnd segmentWords) [0..<?n]" by (simp add: e)
  have len: "length ?ws = ?n" by (simp add: ws)
  have each: "word (?ws ! k) = segmentWords ! k
          \<and> start (?ws ! k) = max 0 (min 5 (?t0 + real k * ?wd))
          \<and> endT (?ws ! k) = max (start (?ws ! k) + 0.05) (min 5 (?t0 + real (k + 1) * ?wd))
          \<and> 0 \<le> start (?ws ! k) \<and> start (?ws ! k) \<le> 5
          \<and> start (?ws ! k) + 0.05 \<le> endT (?ws ! k)
          \<and> endT (?ws ! k) \<le> 5.05
          \<and> (start (?ws ! k) \<le> 4.95 \<longrightarrow> 0 \<le> endT (?ws ! k) \<and> endT (?ws ! k) \<le> 5)"
    if k: "k < ?n" for k
  proof -
    have w: "?ws ! k = word_timing segmentStart segmentEnd segmentWords k"
      using k by (simp add: ws)
    have s: "start (?ws ! k) = max 0 (min 5 (?t0 + real k * ?wd))"
      by (simp add: w word_timing_def Let_def)
    have en0: "endT (?ws ! k) = max (start (?ws ! k) + 0.05) (min 5 (?t0 + real k * ?wd + ?wd))"
      unfolding s by (simp add: w word_timing_def Let_def)
    have gen: "a + real k * w + w = a + real (k + 1) * w" for a w :: real
      by (simp add: algebra_simps)
    have eq: "?t0 + real k * ?wd + ?wd = ?t0 + real (k + 1) * ?wd"
      by (rule gen)
    have en: "endT (?ws ! k) = max (start (?ws ! k) + 0.05) (min 5 (?t0 + real (k + 1) * ?wd))"
      using en0 unfolding eq .
    have b1: "0 \<le> start (?ws ! k)" "start (?ws ! k) \<le> 5" unfolding s by simp_all
    have b2: "start (?ws ! k) + 0.05 \<le> endT (?ws ! k)" unfolding en by simp
    have m1: "max (s + 0.05) (min 5 x) \<le> 5.05" if "s \<le> 5" for s x :: real
      using that by (simp add: max_def min_def)
    have m2: "0 \<le> max (s + 0.05) (min 5 x) \<and> max (s + 0.05) (min 5 x) \<le> 5"
      if "0 \<le> s" "s \<le> 4.95" for s x :: real
      using that by (simp add: max_def min_def)
    have b3: "endT (?ws ! k) \<le> 5.05" unfolding en by (rule m1 [OF b1(2)])
    have b4: "start (?ws ! k) \<le> 4.95 \<longrightarrow> 0 \<le> endT (?ws ! k) \<and> endT (?ws ! k) \<le> 5"
      unfolding en using m2 [OF b1(1)] by blast
    have wd: "word (?ws ! k) = segmentWords ! k" by (simp add: w word_timing_def Let_def)
    show ?thesis using wd s en b1 b2 b3 b4 by blast
  qed
  show ?thesis unfolding Let_def using tk len each by blast
qed

theorem word_timings_witness:
  "start (distributeWords 100 200 [''oh'', ''no''] [] ! 1) = 1.5
   \<and> endT (distributeWords 100 200 [''oh'', ''no''] [] ! 1) = 2
   \<and> word (distributeWords 100 200 [''oh'', ''no''] [] ! 1) = ''no''"
proof -
  note t = word_timings [of "[''oh'', ''no'']" 100 200 "[]", unfolded Let_def]
  then have "(1::nat) < length [''oh'', ''no'']
      \<longrightarrow> word (drop (length ([]::WordSegment list)) (distributeWords 100 200 [''oh'', ''no''] []) ! 1)
            = [''oh'', ''no''] ! 1
        \<and> start (drop (length ([]::WordSegment list)) (distributeWords 100 200 [''oh'', ''no''] []) ! 1)
            = max 0 (min 5 (real_of_int 100 / 100
                + real 1 * ((real_of_int 200 / 100 - real_of_int 100 / 100) / real (length [''oh'', ''no'']))))
        \<and> endT (drop (length ([]::WordSegment list)) (distributeWords 100 200 [''oh'', ''no''] []) ! 1)
            = max (start (drop (length ([]::WordSegment list)) (distributeWords 100 200 [''oh'', ''no''] []) ! 1)
                     + 0.05)
                (min 5 (real_of_int 100 / 100
                + real (1 + 1) * ((real_of_int 200 / 100 - real_of_int 100 / 100) / real (length [''oh'', ''no'']))))"
    by blast
  then show ?thesis by simp
qed

text \<open>
  Claim C4 as stated fails: a segment from 4.8 s to 5.2 s with two words gives the second word
  the start 5 and the end 5.05, outside \<open>[0, 5]\<close>.
\<close>

theorem word_end_past_chunk_counterexample:
  "distributeWords 480 520 [''oh'', ''no''] []
     = [\<lparr> word = ''oh'', start = 4.8, endT = 5, confidence = 0.9 \<rparr>,
        \<lparr> word = ''no'', start = 5, endT = 5.05, confidence = 0.9 \<rparr>]
   \<and> \<not> endT (distributeWords 480 520 [''oh'', ''no''] [] ! 1) \<le> 5"
  by (simp add: distributeWords_eq word_timing_def Let_def)

subsection \<open>The chunk handoff\<close>

text \<open>
  Claim C3. One channel at 2 frames per second (a chunk of 10 frames, a delay line of 40),
  periods of 4 frames, input samples 1, 2, 3, ... The third callback hands off the chunk of
  frames 1 to 10 with the capture position 8, the write cursor before the frames of that
  callback are written: the delay-line positions \<open>chunkEndPos - K + i\<close> hold 0, 0, 1, ..., 8.
  When the recogniser is still busy at the next full chunk and takes it five callbacks
  later, the chunk of frames 13 to 22 is handed off with the capture position 32: the
  positions \<open>chunkEndPos - K + i\<close> hold the frames 23 to 32.
\<close>

theorem chunk_not_aligned:
  "let on_time = run_process
         [([1, 2, 3, 4], [0, 0, 0, 0], 4), ([5, 6, 7, 8], [0, 0, 0, 0], 4),
          ([9, 10, 11, 12], [0, 0, 0, 0], 4)] small_processor;
       busy = run_process
         [([13, 14, 15, 16], [0, 0, 0, 0], 4), ([17, 18, 19, 20], [0, 0, 0, 0], 4),
          ([21, 22, 23, 24], [0, 0, 0, 0], 4), ([25, 26, 27, 28], [0, 0, 0, 0], 4),
          ([29, 30, 31, 32], [0, 0, 0, 0], 4)] on_time;
       deferred = run_process [([33, 34, 35, 36], [0, 0, 0, 0], 4)] (snd (take_chunk busy))
   in hasNewBuffer on_time
      \<and> bufferCaptureTime on_time = 8
      \<and> processingBuffer on_time = [1, 2, 3, 4, 5, 6, 7, 8, 9, 10]
      \<and> claimed_frames on_time = [0, 0, 1, 2, 3, 4, 5, 6, 7, 8]
      \<and> processingBuffer busy = [1, 2, 3, 4, 5, 6, 7, 8, 9, 10]
      \<and> hasNewBuffer deferred
      \<and> bufferCaptureTime deferred = 32
      \<and> processingBuffer deferred = [13, 14, 15, 16, 17, 18, 19, 20, 21, 22]
      \<and> claimed_frames deferred = [23, 24, 25, 26, 27, 28, 29, 30, 31, 32]"
  by code_simp

subsection \<open>Lyrics alignment\<close>

lemma same_shape_put2: "same_shape (put2 v a b x) w = same_shape v w"
  by (simp add: same_shape_def)

lemma put2_other_row:
  "c \<noteq> nat a \<Longrightarrow> put2 v a b x ! c = v ! c"
  by (simp add: put2_def)

text \<open>The first row of the edit-distance matrix is 0, 1, ..., n.\<close>

lemma calculateEditDistance_first_row:
  assumes "0 \<le> j" and "j \<le> int (length seq2)"
  shows "at2 (calculateEditDistance seq1 seq2) 0 j = j"
proof -
  let ?m = "int (length seq1)" and ?n = "int (length seq2)"
  let ?M0 = "replicate (nat (?m + 1)) (replicate (nat (?n + 1)) (0::int))"
  let ?M1 = "for_loop 0 (?m + 1) (\<lambda>i matrix. put2 matrix i 0 i) ?M0"
  let ?M2 = "for_loop 0 (?n + 1) (\<lambda>j matrix. put2 matrix 0 j j) ?M1"
  let ?I = "\<lambda>M. same_shape M ?M0 \<and> (\<forall>j. 0 \<le> j \<and> j \<le> ?n \<longrightarrow> M ! 0 ! nat j = j)"
  have sh1: "same_shape ?M1 ?M0"
    by (rule for_loop_inv [where I = "\<lambda>M. same_shape M ?M0"])
       (simp_all add: same_shape_put2 same_shape_def)
  have len1: "nat 0 < length ?M1" "\<And>k. 0 \<le> k \<Longrightarrow> k \<le> ?n \<Longrightarrow> nat k < length (?M1 ! nat 0)"
    using sh1 by (auto simp: same_shape_def)
  have inj: "inj_on (\<lambda>i. nat i) {0..<?n + 1}" by (auto simp: inj_on_def)
  have sh2: "same_shape ?M2 ?M0"
    using write_loop(1) [of 0 "?n + 1" 0 "\<lambda>j. j" "\<lambda>j. j" ?M1] sh1
    by (auto simp: same_shape_def)
  have row2: "?M2 ! 0 ! nat k = k" if "0 \<le> k" "k \<le> ?n" for k
    using write_loop(3) [OF inj, of k 0 ?M1 "\<lambda>j. j"] that len1 by simp
  have I2: "?I ?M2" using sh2 row2 by blast
  have body: "?I (if seq1 ! nat (i - 1) = seq2 ! nat (k - 1)
                  then put2 M i k (at2 M (i - 1) (k - 1))
                  else put2 M i k (1 + min (at2 M (i - 1) k) (min (at2 M i (k - 1)) (at2 M (i - 1) (k - 1)))))"
    if "?I M" "1 \<le> i" for M i k
  proof -
    have "0 \<noteq> nat i" using that(2) by simp
    then show ?thesis using that(1) by (simp add: same_shape_put2 put2_other_row)
  qed
  have "?I (calculateEditDistance seq1 seq2)"
    unfolding calculateEditDistance_def Let_def
    by (rule for_loop_inv [where I = ?I, OF I2], rule for_loop_inv [where I = ?I]) (use body in auto)
  then show ?thesis using assms by (simp add: at2_def)
qed

lemma emit_segment_pair:
  "0 \<le> ti \<Longrightarrow> 0 \<le> lj \<Longrightarrow>
     emit_segment lw segs out (ti, lj)
       = out @ [\<lparr> word = lw ! nat lj, start = start (segs ! nat ti), endT = endT (segs ! nat ti),
                  confidence = confidence (segs ! nat ti) * 0.95 \<rparr>]"
  by (simp add: emit_segment_def Let_def)

lemma emit_segment_insert:
  "0 \<le> lj \<Longrightarrow>
     emit_segment lw segs out (- 1, lj)
       = out @ [\<lparr> word = lw ! nat lj, start = (if out = [] then 0 else endT (last out)),
                  endT = (if out = [] then 0 else endT (last out)) + 0.3, confidence = 0.5 \<rparr>]"
  by (simp add: emit_segment_def Let_def)

text \<open>
  The backtracking loop from \<open>(i, j)\<close> returns, on a matrix whose first row counts up, and
  what it appends gives the segments of the specification when emitted in reverse.
\<close>

lemma backtrack_loop_refines:
  assumes row: "\<forall>k. 0 < k \<and> k \<le> n \<longrightarrow> at2 M 0 (int k) = at2 M 0 (int k - 1) + 1"
  shows "j \<le> n \<Longrightarrow>
     \<exists>bp. (\<forall>al. backtrack_loop M tw lw (int i) (int j) al = Some (al @ bp))
          \<and> foldl (emit_segment lw segs) [] (rev bp) = spec_aligned M tw lw segs i j"
proof (induction "i + j" arbitrary: i j rule: less_induct)
  case less
  let ?emit = "foldl (emit_segment lw segs) []"
  show ?case
  proof (cases "i = 0 \<and> j = 0")
    case True
    have "\<forall>al. backtrack_loop M tw lw (int i) (int j) al = Some (al @ [])"
      using True by (subst backtrack_loop.simps) simp
    moreover have "?emit (rev []) = spec_aligned M tw lw segs i j"
      using True by (subst spec_aligned.simps) simp
    ultimately show ?thesis by blast
  next
    case nz: False
    have ii: "int (i - 1) = int i - 1" if "i > 0" using that by simp
    have jj: "int (j - 1) = int j - 1" if "j > 0" using that by simp
    have ni: "nat (int i - 1) = i - 1" and nj: "nat (int j - 1) = j - 1" by simp_all
    show ?thesis
    proof (cases "i > 0 \<and> j > 0 \<and> (tw ! (i - 1) = lw ! (j - 1)
                   \<or> at2 M (int i) (int j) = at2 M (int i - 1) (int j - 1) + 1)")
      case pair: True
      then have ij: "i > 0" "j > 0" by auto
      have "\<exists>bp. (\<forall>al. backtrack_loop M tw lw (int (i - 1)) (int (j - 1)) al = Some (al @ bp))
              \<and> ?emit (rev bp) = spec_aligned M tw lw segs (i - 1) (j - 1)"
      proof (rule less(1))
        show "i - 1 + (j - 1) < i + j" using ij by simp
        show "j - 1 \<le> n" using less(2) by simp
      qed
      then obtain bp where bp: "\<forall>al. backtrack_loop M tw lw (int (i - 1)) (int (j - 1)) al = Some (al @ bp)"
          "?emit (rev bp) = spec_aligned M tw lw segs (i - 1) (j - 1)"
        by blast
      have bp1: "backtrack_loop M tw lw (int i - 1) (int j - 1) al = Some (al @ bp)" for al
        using bp(1) unfolding ii [OF ij(1)] jj [OF ij(2)] by blast
      have "backtrack_loop M tw lw (int i) (int j) al = Some (al @ (int i - 1, int j - 1) # bp)" for al
      proof (cases "tw ! (i - 1) = lw ! (j - 1)")
        case True
        then show ?thesis
          by (subst backtrack_loop.simps) (simp only: ni nj ij bp1 of_nat_0_less_iff if_True
                simp_thms append_Cons append_Nil append_assoc)
      next
        case False
        then have "at2 M (int i) (int j) = at2 M (int i - 1) (int j - 1) + 1" using pair by blast
        then show ?thesis
          using False
          by (subst backtrack_loop.simps) (simp only: ni nj ij bp1 of_nat_0_less_iff if_True if_False
                simp_thms append_Cons append_Nil append_assoc)
      qed
      moreover have "?emit (rev ((int i - 1, int j - 1) # bp)) = spec_aligned M tw lw segs i j"
        using pair bp(2) ij
        by (subst spec_aligned.simps) (auto simp: emit_segment_pair nat_diff_distrib)
      ultimately show ?thesis by blast
    next
      case nopair: False
      show ?thesis
      proof (cases "j > 0 \<and> at2 M (int i) (int j) = at2 M (int i) (int j - 1) + 1")
        case ins: True
        then have j0: "j > 0" by simp
        have "\<exists>bp. (\<forall>al. backtrack_loop M tw lw (int i) (int (j - 1)) al = Some (al @ bp))
              \<and> ?emit (rev bp) = spec_aligned M tw lw segs i (j - 1)"
        proof (rule less(1))
          show "i + (j - 1) < i + j" using j0 by simp
          show "j - 1 \<le> n" using less(2) by simp
        qed
        then obtain bp where bp: "\<forall>al. backtrack_loop M tw lw (int i) (int (j - 1)) al = Some (al @ bp)"
            "?emit (rev bp) = spec_aligned M tw lw segs i (j - 1)"
          by blast
        have bp1: "backtrack_loop M tw lw (int i) (int j - 1) al = Some (al @ bp)" for al
          using bp(1) unfolding jj [OF j0] by blast
        have c1: "\<not> (0 < int i \<and> 0 < int j \<and> tw ! nat (int i - 1) = lw ! nat (int j - 1))"
          and c2: "\<not> (0 < int i \<and> 0 < int j \<and> at2 M (int i) (int j) = at2 M (int i - 1) (int j - 1) + 1)"
          and c3: "0 < int j \<and> at2 M (int i) (int j) = at2 M (int i) (int j - 1) + 1"
          using nopair ins unfolding ni nj by auto
        have "backtrack_loop M tw lw (int i) (int j) al = Some (al @ (- 1, int j - 1) # bp)" for al
          by (subst backtrack_loop.simps) (use c1 c2 c3 bp1 in auto)
        moreover have "?emit (rev ((- 1, int j - 1) # bp)) = spec_aligned M tw lw segs i j"
          using nopair ins bp(2) j0 nz
          by (subst spec_aligned.simps) (auto simp: emit_segment_insert Let_def nat_diff_distrib)
        ultimately show ?thesis by blast
      next
        case noins: False
        have i0: "i > 0"
        proof (rule ccontr)
          assume "\<not> i > 0"
          then have "i = 0" "j > 0" using nz by auto
          then show False using noins row less(2) by auto
        qed
        have "\<exists>bp. (\<forall>al. backtrack_loop M tw lw (int (i - 1)) (int j) al = Some (al @ bp))
              \<and> ?emit (rev bp) = spec_aligned M tw lw segs (i - 1) j"
        proof (rule less(1))
          show "i - 1 + j < i + j" using i0 by simp
          show "j \<le> n" using less(2) by simp
        qed
        then obtain bp where bp: "\<forall>al. backtrack_loop M tw lw (int (i - 1)) (int j) al = Some (al @ bp)"
            "?emit (rev bp) = spec_aligned M tw lw segs (i - 1) j"
          by blast
        have bp1: "backtrack_loop M tw lw (int i - 1) (int j) al = Some (al @ bp)" for al
          using bp(1) unfolding ii [OF i0] by blast
        have c1: "\<not> (0 < int i \<and> 0 < int j \<and> tw ! nat (int i - 1) = lw ! nat (int j - 1))"
          and c2: "\<not> (0 < int i \<and> 0 < int j \<and> at2 M (int i) (int j) = at2 M (int i - 1) (int j - 1) + 1)"
          and c3: "\<not> (0 < int j \<and> at2 M (int i) (int j) = at2 M (int i) (int j - 1) + 1)"
          and c4: "0 < int i"
          using nopair noins i0 unfolding ni nj by auto
        have "backtrack_loop M tw lw (int i) (int j) al = Some (al @ bp)" for al
          by (subst backtrack_loop.simps) (use c1 c2 c3 c4 bp1 in auto)
        moreover have "?emit (rev bp) = spec_aligned M tw lw segs i j"
          using nopair noins bp(2) i0 nz by (subst spec_aligned.simps) auto
        ultimately show ?thesis by blast
      qed
    qed
  qed
qed

text \<open>
  Claim C9. The aligner backtracks the edit-distance matrix and returns the segments of the
  specification: for a match or a substitution the lyric word with the transcribed word's
  start and end and 0.95 of its confidence; for an insertion the lyric word starting at the
  end of the previously emitted segment (0 if there is none), lasting 0.3 s, with confidence
  0.5; for a deletion nothing. The backtracking always returns.
\<close>

theorem lyrics_alignment_segments:
  assumes "length originalSegments = length transcribedWords"
  shows "backtrackAlignment (calculateEditDistance transcribedWords lyricsWords)
           transcribedWords lyricsWords originalSegments
         = Some (spec_aligned (calculateEditDistance transcribedWords lyricsWords)
                   transcribedWords lyricsWords originalSegments
                   (length transcribedWords) (length lyricsWords))"
proof -
  let ?M = "calculateEditDistance transcribedWords lyricsWords"
  have row: "\<forall>k. 0 < k \<and> k \<le> length lyricsWords \<longrightarrow> at2 ?M 0 (int k) = at2 ?M 0 (int k - 1) + 1"
  proof (intro allI impI)
    fix k assume k: "0 < k \<and> k \<le> length lyricsWords"
    have "at2 ?M 0 (int k) = int k"
      by (rule calculateEditDistance_first_row) (use k in simp_all)
    moreover have "at2 ?M 0 (int k - 1) = int k - 1"
      by (rule calculateEditDistance_first_row) (use k in simp_all)
    ultimately show "at2 ?M 0 (int k) = at2 ?M 0 (int k - 1) + 1" by simp
  qed
  obtain bp where bp:
    "\<forall>al. backtrack_loop ?M transcribedWords lyricsWords (int (length transcribedWords))
            (int (length lyricsWords)) al = Some (al @ bp)"
    "foldl (emit_segment lyricsWords originalSegments) [] (rev bp)
       = spec_aligned ?M transcribedWords lyricsWords originalSegments
           (length transcribedWords) (length lyricsWords)"
    using backtrack_loop_refines [OF row, of "length lyricsWords" transcribedWords lyricsWords
        "length transcribedWords" originalSegments]
    by blast
  have "backtrack_loop ?M transcribedWords lyricsWords (int (length transcribedWords))
            (int (length lyricsWords)) [] = Some bp"
    using bp(1) by simp
  then show ?thesis using bp(2) by (simp add: backtrackAlignment_def)
qed

theorem lyrics_alignment_segments_witness:
  "length [\<lparr> word = ''hello'', start = 0, endT = 0.5, confidence = 0.9 \<rparr>,
           \<lparr> word = ''word'', start = 0.5, endT = 1, confidence = 0.8 \<rparr>]
     = length [''hello'', ''word'']
   \<and> backtrackAlignment (calculateEditDistance [''hello'', ''word''] [''hello'', ''world'', ''now''])
         [''hello'', ''word''] [''hello'', ''world'', ''now'']
         [\<lparr> word = ''hello'', start = 0, endT = 0.5, confidence = 0.9 \<rparr>,
          \<lparr> word = ''word'', start = 0.5, endT = 1, confidence = 0.8 \<rparr>]
       = Some [\<lparr> word = ''hello'', start = 0, endT = 0.5, confidence = 0.855 \<rparr>,
               \<lparr> word = ''world'', start = 0.5, endT = 0.8, confidence = 0.5 \<rparr>,
               \<lparr> word = ''now'', start = 0.5, endT = 1, confidence = 0.76 \<rparr>]"
proof -
  let ?segs = "[\<lparr> word = ''hello'', start = 0, endT = 0.5, confidence = 0.9 \<rparr>,
           \<lparr> word = ''word'', start = 0.5, endT = 1, confidence = 0.8 \<rparr>]"
  have h: "length ?segs = length [''hello'', ''word'']" by simp
  have e: "spec_aligned (calculateEditDistance [''hello'', ''word''] [''hello'', ''world'', ''now''])
             [''hello'', ''word''] [''hello'', ''world'', ''now''] ?segs
             (length [''hello'', ''word'']) (length [''hello'', ''world'', ''now''])
         = [\<lparr> word = ''hello'', start = 0, endT = 0.5, confidence = 0.855 \<rparr>,
               \<lparr> word = ''world'', start = 0.5, endT = 0.8, confidence = 0.5 \<rparr>,
               \<lparr> word = ''now'', start = 0.5, endT = 1, confidence = 0.76 \<rparr>]"
    by code_simp
  show ?thesis
    using lyrics_alignment_segments [OF h, of "[''hello'', ''world'', ''now'']"] e h by simp
qed

end
